theory Spec2Isabelle
  imports Main "HOL-Library.AList"
begin

section \<open>JSON trees and Python dictionaries\<close>

text \<open>
  The scripts work on the values that Python's \<^verbatim>\<open>json\<close> module produces: \<^verbatim>\<open>None\<close>,
  booleans, integers, strings, lists and dictionaries with string keys. (Floating point
  numbers do not occur in the translation files and are left out.) A Python \<^verbatim>\<open>dict\<close>
  keeps its keys in insertion order and never holds a key twice, so a dictionary is an
  association list; \<open>wf_json\<close> says that no dictionary inside a value repeats a key.
\<close>

datatype json =
    JNull
  | JBool bool
  | JInt int
  | JStr string
  | JList "json list"
  | JDict "(string \<times> json) list"

type_synonym items = "(string \<times> json) list"

fun wf_json :: "json \<Rightarrow> bool" where
  "wf_json (JDict d) = (distinct (map fst d) \<and> (\<forall>p \<in> set d. wf_json (snd p)))"
| "wf_json (JList xs) = (\<forall>x \<in> set xs. wf_json x)"
| "wf_json _ = True"

text \<open>
  \<^verbatim>\<open>d.get(k, default)\<close> and \<^verbatim>\<open>d[k] = v\<close> on a dictionary. The assignment replaces the
  value of a key that is present, in place, and appends a new key at the end: this is
  \<^const>\<open>AList.update\<close>.
\<close>

definition dict_get :: "items \<Rightarrow> string \<Rightarrow> json \<Rightarrow> json" where
  "dict_get d k dflt = (case map_of d k of None \<Rightarrow> dflt | Some v \<Rightarrow> v)"

definition dict_set :: "items \<Rightarrow> string \<Rightarrow> json \<Rightarrow> items" where
  "dict_set d k v = AList.update k v d"

text \<open>
  The two exceptions the merge functions can raise: \<^verbatim>\<open>x.get(...)\<close> on a value that is
  not a dictionary raises \<^verbatim>\<open>AttributeError\<close>, and \<^verbatim>\<open>x[k] = v\<close> with a string key on a
  value that is not a dictionary raises \<^verbatim>\<open>TypeError\<close>.
\<close>

datatype py_error = AttributeError | TypeError

section \<open>The tree merger\<close>

text \<open>
  \<^verbatim>\<open>deep_update\<close> of \<^verbatim>\<open>fix_ka_translation.py\<close>:
  \<^verbatim>\<open>
  def deep_update(source, overrides):
      for key, value in overrides.items():
          if isinstance(value, dict) and value:
              returned = deep_update(source.get(key, {}), value)
              source[key] = returned
          else:
              source[key] = overrides[key]
      return source
  \<close>
  The second argument is the list \<^verbatim>\<open>overrides.items()\<close>. The first is any value: the
  recursive call passes on whatever \<^verbatim>\<open>source.get(key, {})\<close> finds. The function mutates
  \<^verbatim>\<open>source\<close> and returns it; the model returns the new value, or the exception. Base and
  overrides are taken to share no dictionary object, so that the mutation of the one is
  not seen through the other. \<^verbatim>\<open>overrides[key]\<close> in the last branch is \<^verbatim>\<open>value\<close>.
\<close>

fun deep_update :: "json \<Rightarrow> items \<Rightarrow> py_error + json" where
  "deep_update source [] = Inr source"
| "deep_update source ((key, val) # rest) =
     (case val of
        JDict (p # ps) \<Rightarrow>
          (case source of
             JDict d \<Rightarrow>
               (case deep_update (dict_get d key (JDict [])) (p # ps) of
                  Inl e \<Rightarrow> Inl e
                | Inr returned \<Rightarrow> deep_update (JDict (dict_set d key returned)) rest)
           | _ \<Rightarrow> Inl AttributeError)
      | _ \<Rightarrow>
          (case source of
             JDict d \<Rightarrow> deep_update (JDict (dict_set d key val)) rest
           | _ \<Rightarrow> Inl TypeError))"

text \<open>
  \<^verbatim>\<open>isinstance(value, dict) and value\<close>: the test that sends \<open>deep_update\<close> into its
  recursive branch (the patterns \<open>JDict (p # ps)\<close> above).
\<close>

fun nonempty_dict :: "json \<Rightarrow> bool" where
  "nonempty_dict (JDict (p # ps)) = True"
| "nonempty_dict _ = False"

text \<open>\<^verbatim>\<open>isinstance(v, dict)\<close>, the test of the variant below.\<close>

fun is_dict :: "json \<Rightarrow> bool" where
  "is_dict (JDict u) = True"
| "is_dict _ = False"

text \<open>
  \<^verbatim>\<open>deep_update\<close> of \<^verbatim>\<open>rehydrate_ka.py\<close> (the same function is nested in
  \<^verbatim>\<open>update_file\<close> of \<^verbatim>\<open>update_ka_profile_btn.py\<close>). It has no emptiness test: every
  dictionary value, the empty one too, takes the recursive branch.
  \<^verbatim>\<open>
  def deep_update(d, u):
      for k, v in u.items():
          if isinstance(v, dict):
              d[k] = deep_update(d.get(k, {}), v)
          else:
              d[k] = v
      return d
  \<close>
\<close>

fun deep_update_rehydrate :: "json \<Rightarrow> items \<Rightarrow> py_error + json" where
  "deep_update_rehydrate d [] = Inr d"
| "deep_update_rehydrate d ((k, v) # rest) =
     (case v of
        JDict u \<Rightarrow>
          (case d of
             JDict dd \<Rightarrow>
               (case deep_update_rehydrate (dict_get dd k (JDict [])) u of
                  Inl e \<Rightarrow> Inl e
                | Inr r \<Rightarrow> deep_update_rehydrate (JDict (dict_set dd k r)) rest)
           | _ \<Rightarrow> Inl AttributeError)
      | _ \<Rightarrow>
          (case d of
             JDict dd \<Rightarrow> deep_update_rehydrate (JDict (dict_set dd k v)) rest
           | _ \<Rightarrow> Inl TypeError))"

text \<open>
  The merge loop of \<^verbatim>\<open>update_json_file\<close> in \<^verbatim>\<open>update_translations.py\<close>, between reading
  and writing the file:
  \<^verbatim>\<open>
  for key, value in new_data.items():
      if key in data:
          if isinstance(value, dict):
              for sub_key, sub_value in value.items():
                  data[key][sub_key] = sub_value
          else:
              data[key] = value
      else:
          data[key] = value
  \<close>
  \<open>assign_sub_items\<close> is the inner loop, run on the value of \<^verbatim>\<open>data[key]\<close>; the document
  \<^verbatim>\<open>data\<close> itself is a dictionary.
\<close>

fun assign_sub_items :: "json \<Rightarrow> items \<Rightarrow> py_error + json" where
  "assign_sub_items cur [] = Inr cur"
| "assign_sub_items cur ((sub_key, sub_value) # rest) =
     (case cur of
        JDict c \<Rightarrow> assign_sub_items (JDict (dict_set c sub_key sub_value)) rest
      | _ \<Rightarrow> Inl TypeError)"

fun update_json_file_merge :: "items \<Rightarrow> items \<Rightarrow> py_error + items" where
  "update_json_file_merge data [] = Inr data"
| "update_json_file_merge data ((key, val) # rest) =
     (case map_of data key of
        Some cur \<Rightarrow>
          (case val of
             JDict sub \<Rightarrow>
               (case assign_sub_items cur sub of
                  Inl e \<Rightarrow> Inl e
                | Inr cur' \<Rightarrow> update_json_file_merge (dict_set data key cur') rest)
           | _ \<Rightarrow> update_json_file_merge (dict_set data key val) rest)
      | None \<Rightarrow> update_json_file_merge (dict_set data key val) rest)"

subsection \<open>Auxiliary notions for the statements\<close>

text \<open>
  \<open>mergeable source overrides\<close>: wherever the overrides hold a non-empty dictionary, the
  value found in the base at that key is absent or is a dictionary that is mergeable
  with it in turn.
\<close>

fun mergeable :: "json \<Rightarrow> items \<Rightarrow> bool" where
  "mergeable source [] = True"
| "mergeable source ((key, val) # rest) =
     (case source of
        JDict d \<Rightarrow>
          (case val of
             JDict (p # ps) \<Rightarrow> mergeable (dict_get d key (JDict [])) (p # ps)
           | _ \<Rightarrow> True) \<and> mergeable source rest
      | _ \<Rightarrow> False)"

text \<open>The value found by following a list of keys down a tree.\<close>

fun lookup_path :: "json \<Rightarrow> string list \<Rightarrow> json option" where
  "lookup_path t [] = Some t"
| "lookup_path (JDict d) (k # ks) =
     (case map_of d k of None \<Rightarrow> None | Some v \<Rightarrow> lookup_path v ks)"
| "lookup_path _ (k # ks) = None"

text \<open>
  \<open>level_kept overrides ks\<close>: going down the keys \<open>ks\<close>, the overrides hold at each key
  either nothing (the merge does not touch the base below it) or a non-empty node (the
  merge recurses). \<open>level_kept_rehydrate\<close> is the same for the variant without the
  emptiness test, which recurses into every node.
\<close>

fun level_kept :: "items \<Rightarrow> string list \<Rightarrow> bool" where
  "level_kept ovs [] = True"
| "level_kept ovs (k # ks) =
     (case map_of ovs k of
        None \<Rightarrow> True
      | Some (JDict (p # ps)) \<Rightarrow> level_kept (p # ps) ks
      | Some _ \<Rightarrow> False)"

fun level_kept_rehydrate :: "items \<Rightarrow> string list \<Rightarrow> bool" where
  "level_kept_rehydrate ovs [] = True"
| "level_kept_rehydrate ovs (k # ks) =
     (case map_of ovs k of
        None \<Rightarrow> True
      | Some (JDict u) \<Rightarrow> level_kept_rehydrate u ks
      | Some _ \<Rightarrow> False)"

section \<open>The lenient loader\<close>

text \<open>
  \<^verbatim>\<open>rehydrate_ka.py\<close>, lines 96 to 138, as a function of the text \<^verbatim>\<open>ka_content\<close>, the
  fallback \<^verbatim>\<open>en_data\<close> and the decoder \<^verbatim>\<open>json.loads\<close>:
  \<^verbatim>\<open>
  open_braces = ka_content.count('{')
  close_braces = ka_content.count('}')
  diff = open_braces - close_braces
  if diff > 0:
      fixed_content = ka_content + ('}' * diff)
  elif diff < 0:
      fixed_content = ka_content[:diff]
  else:
      fixed_content = ka_content
  try:
      ka_data = json.loads(fixed_content)
  except json.JSONDecodeError:
      fixed_content = re.sub(r',(?=\s*})', '', fixed_content)
      fixed_content = re.sub(r',(?=\s*])', '', fixed_content)
      try:
          ka_data = json.loads(fixed_content)
      except:
          ka_data = en_data
  \<close>
  Each path binds \<^verbatim>\<open>ka_data\<close>, so the statement that follows in the script,
  \<^verbatim>\<open>if 'ka_data' not in locals(): ka_data = en_data\<close>, never fires. A text is a HOL string,
  its characters read as code points below 256.
\<close>

definition fix_braces :: "string \<Rightarrow> string" where
  "fix_braces ka_content =
     (let open_braces = int (count_list ka_content (CHR ''{''));
          close_braces = int (count_list ka_content (CHR ''}''));
          diff = open_braces - close_braces
      in if diff > 0 then ka_content @ replicate (nat diff) (CHR ''}'')
         else if diff < 0 then take (nat (int (length ka_content) + diff)) ka_content
         else ka_content)"

text \<open>
  \<^verbatim>\<open>\s\<close> of a Python \<^verbatim>\<open>str\<close> pattern: the characters for which \<^verbatim>\<open>str.isspace\<close> holds.
\<close>

definition re_space :: "char \<Rightarrow> bool" where
  "re_space c = (of_char c \<in> {9, 10, 11, 12, 13, 28, 29, 30, 31, 32, 133, 160 :: nat})"

text \<open>
  \<^verbatim>\<open>re.sub(r',(?=\s*X)', '', s)\<close> for a closing character \<open>X\<close>: every comma whose
  following text, after any white space, starts with \<open>X\<close> is removed. The lookahead
  consumes nothing, so each comma is judged on the original text.
\<close>

fun sub_comma_before :: "char \<Rightarrow> string \<Rightarrow> string" where
  "sub_comma_before closer [] = []"
| "sub_comma_before closer (x # xs) =
     (if x = CHR '','' \<and>
         (case dropWhile re_space xs of [] \<Rightarrow> False | y # ys \<Rightarrow> y = closer)
      then sub_comma_before closer xs
      else x # sub_comma_before closer xs)"

definition strip_commas :: "string \<Rightarrow> string" where
  "strip_commas fixed_content =
     sub_comma_before (CHR '']'') (sub_comma_before (CHR ''}'') fixed_content)"

text \<open>
  The exception classes that matter to the loader. The first handler is
  \<^verbatim>\<open>except json.JSONDecodeError\<close> and catches that class alone; the second is a bare
  \<^verbatim>\<open>except\<close> and catches every class. \<^verbatim>\<open>json.loads\<close> raises \<^verbatim>\<open>JSONDecodeError\<close> on a
  text that is not JSON, and can raise other classes: \<^verbatim>\<open>ValueError\<close> on an integer with
  more digits than the interpreter converts, \<^verbatim>\<open>RecursionError\<close> on nesting deeper than the
  interpreter allows.
\<close>

datatype load_exn = JSONDecodeError | ValueError | RecursionError

text \<open>
  \<^verbatim>\<open>json.loads\<close> is Python's library, not the repository's: the loader takes it as the
  parameter \<open>loads\<close>, which returns the decoded value (\<open>Inr\<close>) or the exception that
  \<^verbatim>\<open>json.loads\<close> raises (\<open>Inl\<close>). An exception of the first \<^verbatim>\<open>json.loads\<close> that is not a
  \<^verbatim>\<open>JSONDecodeError\<close> passes the first handler and leaves the loader. No other statement
  of the fragment can raise.
\<close>

definition load_lenient ::
  "(string \<Rightarrow> load_exn + json) \<Rightarrow> string \<Rightarrow> json \<Rightarrow> load_exn + json" where
  "load_lenient loads ka_content en_data =
     (let fixed_content = fix_braces ka_content in
      case loads fixed_content of
        Inr ka_data \<Rightarrow> Inr ka_data
      | Inl e \<Rightarrow>
          if e = JSONDecodeError then
            (case loads (strip_commas fixed_content) of
               Inr ka_data \<Rightarrow> Inr ka_data
             | Inl e' \<Rightarrow> Inr en_data)
          else Inl e)"

subsection \<open>A decoder to run the loader on\<close>

text \<open>
  To run the loader on concrete texts, \<open>json_loads\<close> decodes the part of JSON that the
  translation files use, the way \<^verbatim>\<open>json.loads\<close> does: objects, arrays, strings with the
  one-letter escapes, integers, \<^verbatim>\<open>true\<close>, \<^verbatim>\<open>false\<close> and \<^verbatim>\<open>null\<close>, with white space
  between the tokens and nothing but white space after the value. A key that occurs twice
  in an object keeps its first position and its last value, as \<^verbatim>\<open>dict(pairs)\<close> does. An
  integer with more than \<open>int_max_str_digits\<close> digits raises \<^verbatim>\<open>ValueError\<close>, as the
  conversion \<^verbatim>\<open>int(digits)\<close> inside \<^verbatim>\<open>json.loads\<close> does in CPython 3.11 (the default of
  \<^verbatim>\<open>sys.get_int_max_str_digits()\<close> is 4300); everything else that fails raises
  \<^verbatim>\<open>JSONDecodeError\<close>. Texts with \<^verbatim>\<open>\u\<close> escapes, with numbers that have a fraction or an
  exponent, or with \<^verbatim>\<open>NaN\<close> and \<^verbatim>\<open>Infinity\<close> are not covered (the result is
  \<^verbatim>\<open>JSONDecodeError\<close>), and the interpreter's bound on the nesting depth is not modelled.
  The scanner is a recursive descent whose depth is bounded by a counter; twice the
  length of the text is always enough (\<open>json_loads_fuel\<close> below), so that the result
  never comes from a counter that ran out.
\<close>

definition json_ws :: "char \<Rightarrow> bool" where
  "json_ws c = (c = CHR '' '' \<or> c = CHR 0x09 \<or> c = CHR 0x0A \<or> c = CHR 0x0D)"

definition skip_ws :: "string \<Rightarrow> string" where
  "skip_ws s = dropWhile json_ws s"

definition starts_with :: "string \<Rightarrow> string \<Rightarrow> bool" where
  "starts_with p s = (take (length p) s = p)"

definition unescape :: "char \<Rightarrow> char option" where
  "unescape e =
     (if e = CHR 0x22 \<or> e = CHR 0x5C \<or> e = CHR ''/'' then Some e
      else if e = CHR ''b'' then Some (CHR 0x08)
      else if e = CHR ''f'' then Some (CHR 0x0C)
      else if e = CHR ''n'' then Some (CHR 0x0A)
      else if e = CHR ''r'' then Some (CHR 0x0D)
      else if e = CHR ''t'' then Some (CHR 0x09)
      else None)"

text \<open>The body of a string, after its opening quote; \<open>None\<close> is a \<^verbatim>\<open>JSONDecodeError\<close>.\<close>

fun scanstring :: "string \<Rightarrow> (string \<times> string) option" where
  "scanstring [] = None"
| "scanstring [c] = (if c = CHR 0x22 then Some ([], []) else None)"
| "scanstring (c # e # cs) =
     (if c = CHR 0x22 then Some ([], e # cs)
      else if c = CHR 0x5C then
        (case unescape e of
           None \<Rightarrow> None
         | Some ch \<Rightarrow> map_option (apfst ((#) ch)) (scanstring cs))
      else if (of_char c :: nat) < 32 then None
      else map_option (apfst ((#) c)) (scanstring (e # cs)))"

definition is_digit :: "char \<Rightarrow> bool" where
  "is_digit c = (48 \<le> (of_char c :: nat) \<and> (of_char c :: nat) \<le> 57)"

definition digits_value :: "string \<Rightarrow> int" where
  "digits_value ds = foldl (\<lambda>a c. 10 * a + (int (of_char c) - 48)) 0 ds"

definition int_max_str_digits :: nat where
  "int_max_str_digits = 4300"

text \<open>The digits of the integer part, \<^verbatim>\<open>0|[1-9][0-9]*\<close>, and the text after them.\<close>

definition scan_unsigned :: "string \<Rightarrow> (string \<times> string) option" where
  "scan_unsigned s =
     (if starts_with ''0'' s then Some (''0'', tl s)
      else if takeWhile is_digit s = [] then None
      else Some (takeWhile is_digit s, dropWhile is_digit s))"

text \<open>
  A fraction \<^verbatim>\<open>\.[0-9]+\<close> or an exponent \<^verbatim>\<open>[eE][-+]?[0-9]+\<close> after the integer part makes
  the number a float.
\<close>

definition float_tail :: "string \<Rightarrow> bool" where
  "float_tail r =
     ((starts_with ''.'' r \<and> (case tl r of [] \<Rightarrow> False | d # ds \<Rightarrow> is_digit d))
      \<or> ((starts_with ''e'' r \<or> starts_with ''E'' r) \<and>
          (case (if starts_with ''+'' (tl r) \<or> starts_with ''-'' (tl r) then tl (tl r) else tl r) of
             [] \<Rightarrow> False
           | d # ds \<Rightarrow> is_digit d)))"

definition scan_int :: "string \<Rightarrow> load_exn + (json \<times> string)" where
  "scan_int s =
     (case (if starts_with ''-'' s then scan_unsigned (tl s) else scan_unsigned s) of
        None \<Rightarrow> Inl JSONDecodeError
      | Some (ds, r) \<Rightarrow>
          if float_tail r then Inl JSONDecodeError
          else if int_max_str_digits < length ds then Inl ValueError
          else Inr (JInt (if starts_with ''-'' s then - digits_value ds else digits_value ds), r))"

fun scan_once :: "nat \<Rightarrow> string \<Rightarrow> load_exn + (json \<times> string)"
  and scan_object :: "nat \<Rightarrow> items \<Rightarrow> string \<Rightarrow> load_exn + (json \<times> string)"
  and scan_array :: "nat \<Rightarrow> json list \<Rightarrow> string \<Rightarrow> load_exn + (json \<times> string)" where
  "scan_once 0 s = Inl JSONDecodeError"
| "scan_once (Suc n) s =
     (if starts_with [CHR 0x22] s then
        (case scanstring (tl s) of
           None \<Rightarrow> Inl JSONDecodeError
         | Some (str, r) \<Rightarrow> Inr (JStr str, r))
      else if starts_with ''{'' s then
        (let r = skip_ws (tl s) in
         if starts_with ''}'' r then Inr (JDict [], tl r) else scan_object n [] r)
      else if starts_with ''['' s then
        (let r = skip_ws (tl s) in
         if starts_with '']'' r then Inr (JList [], tl r) else scan_array n [] r)
      else if starts_with ''null'' s then Inr (JNull, drop 4 s)
      else if starts_with ''true'' s then Inr (JBool True, drop 4 s)
      else if starts_with ''false'' s then Inr (JBool False, drop 5 s)
      else scan_int s)"
| "scan_object 0 pairs s = Inl JSONDecodeError"
| "scan_object (Suc n) pairs s =
     (if starts_with [CHR 0x22] s then
        (case scanstring (tl s) of
           None \<Rightarrow> Inl JSONDecodeError
         | Some (key, r1) \<Rightarrow>
             (let r2 = skip_ws r1 in
              if starts_with '':'' r2 then
                (case scan_once n (skip_ws (tl r2)) of
                   Inl e \<Rightarrow> Inl e
                 | Inr (v, r3) \<Rightarrow>
                     (let r4 = skip_ws r3; pairs' = dict_set pairs key v in
                      if starts_with ''}'' r4 then Inr (JDict pairs', tl r4)
                      else if starts_with '','' r4 then scan_object n pairs' (skip_ws (tl r4))
                      else Inl JSONDecodeError))
              else Inl JSONDecodeError))
      else Inl JSONDecodeError)"
| "scan_array 0 elems s = Inl JSONDecodeError"
| "scan_array (Suc n) elems s =
     (case scan_once n s of
        Inl e \<Rightarrow> Inl e
      | Inr (v, r1) \<Rightarrow>
          (let r2 = skip_ws r1 in
           if starts_with '']'' r2 then Inr (JList (elems @ [v]), tl r2)
           else if starts_with '','' r2 then scan_array n (elems @ [v]) (skip_ws (tl r2))
           else Inl JSONDecodeError))"

definition json_loads :: "string \<Rightarrow> load_exn + json" where
  "json_loads s =
     (case scan_once (Suc (2 * length s)) (skip_ws s) of
        Inl e \<Rightarrow> Inl e
      | Inr (v, r) \<Rightarrow> if skip_ws r = [] then Inr v else Inl JSONDecodeError)"

section \<open>Properties of the merge\<close>

subsection \<open>The merge on the specification's examples\<close>

lemma deep_update_examples:
  "deep_update (JDict [(''a'', JDict [(''x'', JInt 1)])]) [(''a'', JDict [(''y'', JInt 2)])]
     = Inr (JDict [(''a'', JDict [(''x'', JInt 1), (''y'', JInt 2)])])"
  "deep_update (JDict [(''a'', JDict [(''x'', JInt 1)])]) [(''a'', JDict [(''x'', JInt 2)])]
     = Inr (JDict [(''a'', JDict [(''x'', JInt 2)])])"
  "deep_update (JDict [(''a'', JDict [(''x'', JInt 1)]), (''b'', JStr ''0'')]) [(''k'', JStr ''v'')]
     = Inr (JDict [(''a'', JDict [(''x'', JInt 1)]), (''b'', JStr ''0''), (''k'', JStr ''v'')])"
  "deep_update_rehydrate (JDict [(''a'', JDict [(''x'', JInt 1)])]) [(''a'', JDict [(''y'', JInt 2)])]
     = Inr (JDict [(''a'', JDict [(''x'', JInt 1), (''y'', JInt 2)])])"
  by (simp_all add: dict_get_def dict_set_def)

subsection \<open>Basic facts\<close>

lemma wf_json_item: "wf_json (JDict d) \<Longrightarrow> (k, v) \<in> set d \<Longrightarrow> wf_json v"
  by force

lemma wf_json_rest: "wf_json (JDict (x # rest)) \<Longrightarrow> wf_json (JDict rest)"
  by simp

lemma size_item_less: "(k, v) \<in> set ovs \<Longrightarrow> size v < size (JDict ovs)"
  by (induction ovs) auto

lemma size_rest_less: "size (JDict rest) < size (JDict (x # rest))"
  by simp

lemma size_head_less: "size val < size (JDict ((key, val) # rest))"
  by simp

lemma deep_update_Cons_node:
  "deep_update (JDict d) ((key, JDict (p # ps)) # rest) =
     (case deep_update (dict_get d key (JDict [])) (p # ps) of
        Inl e \<Rightarrow> Inl e
      | Inr m \<Rightarrow> deep_update (JDict (dict_set d key m)) rest)"
  by simp

lemma deep_update_Cons_leaf:
  "\<not> nonempty_dict val \<Longrightarrow>
   deep_update (JDict d) ((key, val) # rest) = deep_update (JDict (dict_set d key val)) rest"
  by (cases val rule: nonempty_dict.cases) simp_all

lemma deep_update_nondict:
  "\<forall>d. source \<noteq> JDict d \<Longrightarrow> ovs \<noteq> [] \<Longrightarrow> \<exists>e. deep_update source ovs = Inl e"
  by (cases ovs; cases source) (auto split: json.splits list.splits sum.splits)

subsection \<open>What the merge stores at each key\<close>

lemma deep_update_dict_result:
  "deep_update (JDict d) ovs = Inr r \<Longrightarrow> \<exists>d'. r = JDict d'"
  by (induction ovs arbitrary: d) (auto split: json.splits list.splits sum.splits)

lemma deep_update_other_key:
  "deep_update (JDict d) ovs = Inr (JDict d') \<Longrightarrow> k \<notin> fst ` set ovs \<Longrightarrow> map_of d' k = map_of d k"
  by (induction ovs arbitrary: d) (auto simp: dict_set_def update_conv' split: json.splits list.splits sum.splits)

lemma deep_update_leaf_key:
  "distinct (map fst ovs) \<Longrightarrow> (k, v) \<in> set ovs \<Longrightarrow> \<not> nonempty_dict v \<Longrightarrow>
   deep_update (JDict d) ovs = Inr (JDict d') \<Longrightarrow> map_of d' k = Some v"
proof (induction ovs arbitrary: d)
  case Nil
  then show ?case by simp
next
  case (Cons a ovs)
  obtain key val where a: "a = (key, val)" by (cases a)
  show ?case
  proof (cases "(k, v) = a")
    case True
    with a have kv: "key = k" "val = v" by auto
    from Cons.prems(1) a kv have notin: "k \<notin> fst ` set ovs" by auto
    from Cons.prems(3,4) a kv have "deep_update (JDict (dict_set d k v)) ovs = Inr (JDict d')"
      by (auto split: json.splits list.splits sum.splits)
    from deep_update_other_key[OF this notin] show ?thesis
      by (simp add: dict_set_def update_conv')
  next
    case False
    with Cons.prems(2) have mem: "(k, v) \<in> set ovs" by auto
    from Cons.prems(1) have dist: "distinct (map fst ovs)" by simp
    from Cons.prems(4) a obtain d1 where "deep_update (JDict d1) ovs = Inr (JDict d')"
      by (auto split: json.splits list.splits sum.splits)
    from Cons.IH[OF dist mem Cons.prems(3) this] show ?thesis .
  qed
qed

lemma deep_update_node_key:
  "distinct (map fst ovs) \<Longrightarrow> (k, JDict (p # ps)) \<in> set ovs \<Longrightarrow>
   deep_update (JDict d) ovs = Inr (JDict d') \<Longrightarrow>
   \<exists>m. deep_update (dict_get d k (JDict [])) (p # ps) = Inr m \<and> map_of d' k = Some m"
proof (induction ovs arbitrary: d)
  case Nil
  then show ?case by simp
next
  case (Cons a ovs)
  obtain key val where a: "a = (key, val)" by (cases a)
  show ?case
  proof (cases "(k, JDict (p # ps)) = a")
    case True
    with a have kv: "key = k" "val = JDict (p # ps)" by auto
    from Cons.prems(1) a kv have notin: "k \<notin> fst ` set ovs" by auto
    from Cons.prems(3) a kv obtain m where
      m: "deep_update (dict_get d k (JDict [])) (p # ps) = Inr m"
      and rest: "deep_update (JDict (dict_set d k m)) ovs = Inr (JDict d')"
      by (auto split: sum.splits)
    from deep_update_other_key[OF rest notin] m show ?thesis
      by (simp add: dict_set_def update_conv')
  next
    case False
    with Cons.prems(2) have mem: "(k, JDict (p # ps)) \<in> set ovs" by auto
    from Cons.prems(1) have dist: "distinct (map fst ovs)" by simp
    from Cons.prems(1) a mem have neq: "key \<noteq> k" by force
    from Cons.prems(3) a obtain x where rest: "deep_update (JDict (dict_set d key x)) ovs = Inr (JDict d')"
      by (auto split: json.splits list.splits sum.splits)
    from Cons.IH[OF dist mem rest] neq show ?thesis
      by (simp add: dict_get_def dict_set_def update_conv')
  qed
qed

subsection \<open>Merging twice\<close>

lemma deep_update_settled:
  "(\<And>k p ps. (k, JDict (p # ps)) \<in> set ovs \<Longrightarrow>
        \<exists>m. map_of d k = Some m \<and> deep_update m (p # ps) = Inr m) \<Longrightarrow>
   (\<And>k v. (k, v) \<in> set ovs \<Longrightarrow> \<not> nonempty_dict v \<Longrightarrow> map_of d k = Some v) \<Longrightarrow>
   deep_update (JDict d) ovs = Inr (JDict d)"
proof (induction ovs)
  case Nil
  then show ?case by simp
next
  case (Cons a ovs)
  obtain key val where a: "a = (key, val)" by (cases a)
  have rest: "deep_update (JDict d) ovs = Inr (JDict d)"
    using Cons.IH Cons.prems by (meson list.set_intros(2))
  show ?case
  proof (cases "nonempty_dict val")
    case True
    then obtain p ps where val: "val = JDict (p # ps)"
      by (cases val rule: nonempty_dict.cases) auto
    from Cons.prems(1)[of key p ps] a val obtain m where
      m: "map_of d key = Some m" "deep_update m (p # ps) = Inr m" by auto
    then show ?thesis using a val rest
      by (simp add: dict_get_def dict_set_def update_triv)
  next
    case False
    from Cons.prems(2)[of key val] a False have "map_of d key = Some val" by simp
    then have "dict_set d key val = d" by (simp add: dict_set_def update_triv)
    then show ?thesis using a False rest
      by (cases val rule: nonempty_dict.cases) simp_all
  qed
qed

lemma deep_update_idem_aux:
  "wf_json (JDict ovs) \<Longrightarrow> deep_update source ovs = Inr r \<Longrightarrow> deep_update r ovs = Inr r"
proof (induction "size (JDict ovs)" arbitrary: ovs source r rule: less_induct)
  case less
  show ?case
  proof (cases "ovs = []")
    case True
    then show ?thesis by simp
  next
    case False
    with less.prems(2) deep_update_nondict[of source ovs] obtain d where src: "source = JDict d"
      by auto
    with less.prems(2) deep_update_dict_result obtain d' where r: "r = JDict d'" by blast
    from less.prems(1) have dist: "distinct (map fst ovs)" by simp
    have upd: "deep_update (JDict d) ovs = Inr (JDict d')"
      using less.prems(2) src r by simp
    have "deep_update (JDict d') ovs = Inr (JDict d')"
    proof (rule deep_update_settled)
      fix k p ps
      assume mem: "(k, JDict (p # ps)) \<in> set ovs"
      from deep_update_node_key[OF dist mem upd] obtain m where
        m: "deep_update (dict_get d k (JDict [])) (p # ps) = Inr m" "map_of d' k = Some m"
        by blast
      from less.prems(1) mem have wf: "wf_json (JDict (p # ps))" by (rule wf_json_item)
      from less.hyps[OF size_item_less[OF mem] wf m(1)] m(2)
      show "\<exists>m. map_of d' k = Some m \<and> deep_update m (p # ps) = Inr m" by blast
    next
      fix k v
      assume "(k, v) \<in> set ovs" "\<not> nonempty_dict v"
      then show "map_of d' k = Some v"
        using deep_update_leaf_key[OF dist _ _ upd] by blast
    qed
    with r show ?thesis by simp
  qed
qed

subsection \<open>When the merge raises\<close>

lemma mergeable_nondict: "\<forall>d. source \<noteq> JDict d \<Longrightarrow> ovs \<noteq> [] \<Longrightarrow> \<not> mergeable source ovs"
  by (cases ovs; cases source) auto

lemma mergeable_Cons_node:
  "mergeable (JDict d) ((key, JDict (p # ps)) # rest) =
     (mergeable (dict_get d key (JDict [])) (p # ps) \<and> mergeable (JDict d) rest)"
  by simp

lemma mergeable_Cons_leaf:
  "\<not> nonempty_dict val \<Longrightarrow> mergeable (JDict d) ((key, val) # rest) = mergeable (JDict d) rest"
  by (cases val rule: nonempty_dict.cases) simp_all

lemma dict_get_dict_set_other:
  "k \<noteq> key \<Longrightarrow> dict_get (dict_set d key x) k dflt = dict_get d k dflt"
  by (simp add: dict_get_def dict_set_def update_conv')

lemma mergeable_Cons_dict:
  "mergeable (JDict d) ((key, val) # rest) =
     ((case val of JDict (p # ps) \<Rightarrow> mergeable (dict_get d key (JDict [])) (p # ps) | _ \<Rightarrow> True)
      \<and> mergeable (JDict d) rest)"
  by simp

lemma mergeable_dict_set:
  "key \<notin> fst ` set ovs \<Longrightarrow> mergeable (JDict (dict_set d key x)) ovs = mergeable (JDict d) ovs"
proof (induction ovs)
  case Nil
  then show ?case by simp
next
  case (Cons a ovs)
  obtain k v where a: "a = (k, v)" by (cases a)
  from Cons.prems a have neq: "k \<noteq> key" and notin: "key \<notin> fst ` set ovs" by auto
  show ?case
    unfolding a mergeable_Cons_dict dict_get_dict_set_other[OF neq] Cons.IH[OF notin] ..
qed

lemma deep_update_mergeable:
  "wf_json (JDict ovs) \<Longrightarrow> mergeable source ovs = (\<exists>r. deep_update source ovs = Inr r)"
proof (induction "size (JDict ovs)" arbitrary: ovs source rule: less_induct)
  case less
  show ?case
  proof (cases ovs)
    case Nil
    then show ?thesis by simp
  next
    case (Cons a rest)
    obtain key val where a: "a = (key, val)" by (cases a)
    have ovs: "ovs = (key, val) # rest" using Cons a by simp
    show ?thesis
    proof (cases "\<exists>d. source = JDict d")
      case False
      then have nd: "\<forall>d. source \<noteq> JDict d" by simp
      from mergeable_nondict[OF nd, of ovs] deep_update_nondict[OF nd, of ovs] ovs
      show ?thesis by auto
    next
      case True
      then obtain d where src: "source = JDict d" by blast
      from less.prems ovs have notin: "key \<notin> fst ` set rest" by auto
      have wfr: "wf_json (JDict rest)" using less.prems ovs wf_json_rest by blast
      have IHrest: "\<And>s. mergeable s rest = (\<exists>r. deep_update s rest = Inr r)"
        using less.hyps[OF _ wfr] ovs size_rest_less by blast
      show ?thesis
      proof (cases "nonempty_dict val")
        case True
        then obtain p ps where val: "val = JDict (p # ps)"
          by (cases val rule: nonempty_dict.cases) auto
        have wfv: "wf_json (JDict (p # ps))"
          using wf_json_item[OF less.prems, of key val] ovs val by simp
        have IHsub: "\<And>s. mergeable s (p # ps) = (\<exists>r. deep_update s (p # ps) = Inr r)"
          using less.hyps[OF _ wfv] ovs val size_head_less by blast
        show ?thesis
        proof (cases "deep_update (dict_get d key (JDict [])) (p # ps)")
          case (Inl e)
          then have "\<not> mergeable (dict_get d key (JDict [])) (p # ps)"
            using IHsub by simp
          with Inl show ?thesis
            unfolding ovs src val mergeable_Cons_node deep_update_Cons_node
            by (simp del: deep_update.simps mergeable.simps)
        next
          case (Inr m)
          then have "mergeable (dict_get d key (JDict [])) (p # ps)"
            using IHsub by simp
          with Inr IHrest[of "JDict (dict_set d key m)"] mergeable_dict_set[OF notin, of d m]
          show ?thesis
            unfolding ovs src val mergeable_Cons_node deep_update_Cons_node
            by (simp del: deep_update.simps mergeable.simps)
        qed
      next
        case False
        have "mergeable (JDict d) rest = (\<exists>r. deep_update (JDict (dict_set d key val)) rest = Inr r)"
          using IHrest[of "JDict (dict_set d key val)"] mergeable_dict_set[OF notin, of d val]
          by simp
        then show ?thesis
          unfolding ovs src mergeable_Cons_leaf[OF False] deep_update_Cons_leaf[OF False] .
      qed
    qed
  qed
qed

subsection \<open>The variant of \<^verbatim>\<open>rehydrate_ka.py\<close>\<close>

lemma rehydrate_Cons_node:
  "deep_update_rehydrate (JDict d) ((k, JDict u) # rest) =
     (case deep_update_rehydrate (dict_get d k (JDict [])) u of
        Inl e \<Rightarrow> Inl e
      | Inr m \<Rightarrow> deep_update_rehydrate (JDict (dict_set d k m)) rest)"
  by simp

lemma rehydrate_Cons_leaf:
  "\<not> is_dict v \<Longrightarrow>
   deep_update_rehydrate (JDict d) ((k, v) # rest) = deep_update_rehydrate (JDict (dict_set d k v)) rest"
  by (cases v) simp_all

lemma rehydrate_nondict:
  "\<forall>d. source \<noteq> JDict d \<Longrightarrow> ovs \<noteq> [] \<Longrightarrow> \<exists>e. deep_update_rehydrate source ovs = Inl e"
  by (cases ovs; cases source) (auto split: json.splits)

lemma rehydrate_Cons_cases:
  assumes "deep_update_rehydrate (JDict d) ((k, v) # rest) = Inr r"
  shows "\<exists>x. deep_update_rehydrate (JDict (dict_set d k x)) rest = Inr r
           \<and> (\<not> is_dict v \<longrightarrow> x = v)
           \<and> (\<forall>u. v = JDict u \<longrightarrow> deep_update_rehydrate (dict_get d k (JDict [])) u = Inr x)"
proof (cases "is_dict v")
  case True
  then obtain u where v: "v = JDict u" by (cases v) auto
  from assms[unfolded v rehydrate_Cons_node] obtain m where
    "deep_update_rehydrate (dict_get d k (JDict [])) u = Inr m"
    "deep_update_rehydrate (JDict (dict_set d k m)) rest = Inr r"
    by (auto split: sum.splits)
  with v show ?thesis by auto
next
  case False
  from assms[unfolded rehydrate_Cons_leaf[OF False]] False show ?thesis
    by (cases v) auto
qed

lemma rehydrate_dict_result:
  "deep_update_rehydrate (JDict d) ovs = Inr r \<Longrightarrow> \<exists>d'. r = JDict d'"
proof (induction ovs arbitrary: d)
  case Nil
  then show ?case by auto
next
  case (Cons a ovs)
  obtain k v where a: "a = (k, v)" by (cases a)
  from rehydrate_Cons_cases[OF Cons.prems[unfolded a]] obtain x where
    "deep_update_rehydrate (JDict (dict_set d k x)) ovs = Inr r" by blast
  then show ?case by (rule Cons.IH)
qed

lemma rehydrate_other_key:
  "deep_update_rehydrate (JDict d) ovs = Inr (JDict d') \<Longrightarrow> k \<notin> fst ` set ovs \<Longrightarrow>
   map_of d' k = map_of d k"
proof (induction ovs arbitrary: d)
  case Nil
  then show ?case by simp
next
  case (Cons a ovs)
  obtain key v where a: "a = (key, v)" by (cases a)
  from Cons.prems(2) a have neq: "k \<noteq> key" and notin: "k \<notin> fst ` set ovs" by auto
  from rehydrate_Cons_cases[OF Cons.prems(1)[unfolded a]] obtain x where
    "deep_update_rehydrate (JDict (dict_set d key x)) ovs = Inr (JDict d')" by blast
  from Cons.IH[OF this notin] neq show ?case
    by (simp add: dict_set_def update_conv')
qed

lemma rehydrate_leaf_key:
  "distinct (map fst ovs) \<Longrightarrow> (k, v) \<in> set ovs \<Longrightarrow> \<not> is_dict v \<Longrightarrow>
   deep_update_rehydrate (JDict d) ovs = Inr (JDict d') \<Longrightarrow> map_of d' k = Some v"
proof (induction ovs arbitrary: d)
  case Nil
  then show ?case by simp
next
  case (Cons a ovs)
  obtain key val where a: "a = (key, val)" by (cases a)
  from rehydrate_Cons_cases[OF Cons.prems(4)[unfolded a]] obtain x where
    rest: "deep_update_rehydrate (JDict (dict_set d key x)) ovs = Inr (JDict d')"
    and leaf: "\<not> is_dict val \<Longrightarrow> x = val"
    by blast
  show ?case
  proof (cases "(k, v) = a")
    case True
    with a have kv: "key = k" "val = v" by auto
    from Cons.prems(1) a kv have notin: "k \<notin> fst ` set ovs" by auto
    from rehydrate_other_key[OF rest notin] leaf kv Cons.prems(3) show ?thesis
      by (simp add: dict_set_def update_conv')
  next
    case False
    with Cons.prems(2) have mem: "(k, v) \<in> set ovs" by auto
    from Cons.prems(1) have dist: "distinct (map fst ovs)" by simp
    from Cons.IH[OF dist mem Cons.prems(3) rest] show ?thesis .
  qed
qed

lemma rehydrate_node_key:
  "distinct (map fst ovs) \<Longrightarrow> (k, JDict u) \<in> set ovs \<Longrightarrow>
   deep_update_rehydrate (JDict d) ovs = Inr (JDict d') \<Longrightarrow>
   \<exists>m. deep_update_rehydrate (dict_get d k (JDict [])) u = Inr m \<and> map_of d' k = Some m"
proof (induction ovs arbitrary: d)
  case Nil
  then show ?case by simp
next
  case (Cons a ovs)
  obtain key val where a: "a = (key, val)" by (cases a)
  from rehydrate_Cons_cases[OF Cons.prems(3)[unfolded a]] obtain x where
    rest: "deep_update_rehydrate (JDict (dict_set d key x)) ovs = Inr (JDict d')"
    and node: "\<And>u. val = JDict u \<Longrightarrow> deep_update_rehydrate (dict_get d key (JDict [])) u = Inr x"
    by blast
  show ?case
  proof (cases "(k, JDict u) = a")
    case True
    with a have kv: "key = k" "val = JDict u" by auto
    from Cons.prems(1) a kv have notin: "k \<notin> fst ` set ovs" by auto
    from rehydrate_other_key[OF rest notin] node[OF kv(2)] kv show ?thesis
      by (simp add: dict_set_def update_conv')
  next
    case False
    with Cons.prems(2) have mem: "(k, JDict u) \<in> set ovs" by auto
    from Cons.prems(1) have dist: "distinct (map fst ovs)" by simp
    from Cons.prems(1) a mem have neq: "k \<noteq> key" by force
    from Cons.IH[OF dist mem rest] show ?thesis
      unfolding dict_get_dict_set_other[OF neq] .
  qed
qed

lemma rehydrate_mergeable:
  "wf_json (JDict ovs) \<Longrightarrow> mergeable source ovs = (\<exists>r. deep_update_rehydrate source ovs = Inr r)"
proof (induction "size (JDict ovs)" arbitrary: ovs source rule: less_induct)
  case less
  show ?case
  proof (cases ovs)
    case Nil
    then show ?thesis by simp
  next
    case (Cons a rest)
    obtain key val where a: "a = (key, val)" by (cases a)
    have ovs: "ovs = (key, val) # rest" using Cons a by simp
    show ?thesis
    proof (cases "\<exists>d. source = JDict d")
      case False
      then have nd: "\<forall>d. source \<noteq> JDict d" by simp
      from mergeable_nondict[OF nd, of ovs] rehydrate_nondict[OF nd, of ovs] ovs
      show ?thesis by auto
    next
      case True
      then obtain d where src: "source = JDict d" by blast
      from less.prems ovs have notin: "key \<notin> fst ` set rest" by auto
      have wfr: "wf_json (JDict rest)" using less.prems ovs wf_json_rest by blast
      have IHrest: "\<And>s. mergeable s rest = (\<exists>r. deep_update_rehydrate s rest = Inr r)"
        using less.hyps[OF _ wfr] ovs size_rest_less by blast
      show ?thesis
      proof (cases "is_dict val")
        case True
        then obtain u where val: "val = JDict u" by (cases val) auto
        have wfv: "wf_json (JDict u)"
          using wf_json_item[OF less.prems, of key val] ovs val by simp
        have IHsub: "\<And>s. mergeable s u = (\<exists>r. deep_update_rehydrate s u = Inr r)"
          using less.hyps[OF _ wfv] ovs val size_head_less by blast
        have mg: "mergeable (JDict d) ((key, JDict u) # rest) =
                  (mergeable (dict_get d key (JDict [])) u \<and> mergeable (JDict d) rest)"
          by (cases u) simp_all
        show ?thesis
        proof (cases "deep_update_rehydrate (dict_get d key (JDict [])) u")
          case (Inl e)
          then have "\<not> mergeable (dict_get d key (JDict [])) u"
            using IHsub by simp
          with Inl show ?thesis
            unfolding ovs src val mg rehydrate_Cons_node
            by (simp del: deep_update_rehydrate.simps mergeable.simps)
        next
          case (Inr m)
          then have "mergeable (dict_get d key (JDict [])) u"
            using IHsub by simp
          with Inr IHrest[of "JDict (dict_set d key m)"] mergeable_dict_set[OF notin, of d m]
          show ?thesis
            unfolding ovs src val mg rehydrate_Cons_node
            by (simp del: deep_update_rehydrate.simps mergeable.simps)
        qed
      next
        case False
        then have ne: "\<not> nonempty_dict val" by (cases val) auto
        have "mergeable (JDict d) rest = (\<exists>r. deep_update_rehydrate (JDict (dict_set d key val)) rest = Inr r)"
          using IHrest[of "JDict (dict_set d key val)"] mergeable_dict_set[OF notin, of d val]
          by simp
        then show ?thesis
          unfolding ovs src mergeable_Cons_leaf[OF ne] rehydrate_Cons_leaf[OF False] .
      qed
    qed
  qed
qed

subsection \<open>Keys of the base that survive\<close>

lemma lookup_path_ConsD:
  "lookup_path base (k # ks) = Some v \<Longrightarrow>
   \<exists>d s. base = JDict d \<and> map_of d k = Some s \<and> lookup_path s ks = Some v"
  by (cases base) (auto split: option.splits)

lemma deep_update_keeps_key:
  assumes dist: "distinct (map fst ovs)"
    and upd: "deep_update (JDict d) ovs = Inr (JDict d')"
    and old: "map_of d k = Some v"
  shows "map_of d' k \<noteq> None \<and> (map_of ovs k = None \<longrightarrow> map_of d' k = Some v)"
proof (cases "map_of ovs k")
  case None
  then have "k \<notin> fst ` set ovs" by (simp add: map_of_eq_None_iff)
  from deep_update_other_key[OF upd this] old show ?thesis by simp
next
  case (Some x)
  then have mem: "(k, x) \<in> set ovs" by (rule map_of_SomeD)
  show ?thesis
  proof (cases "nonempty_dict x")
    case True
    then obtain p ps where x: "x = JDict (p # ps)"
      by (cases x rule: nonempty_dict.cases) auto
    from deep_update_node_key[OF dist mem[unfolded x] upd] Some show ?thesis by auto
  next
    case False
    from deep_update_leaf_key[OF dist mem False upd] Some show ?thesis by simp
  qed
qed

lemma deep_update_keeps_path:
  "wf_json (JDict ovs) \<Longrightarrow> deep_update base ovs = Inr r \<Longrightarrow>
   lookup_path base (ks @ [k]) = Some v \<Longrightarrow> level_kept ovs ks \<Longrightarrow>
   lookup_path r (ks @ [k]) \<noteq> None
   \<and> (lookup_path (JDict ovs) (ks @ [k]) = None \<longrightarrow> lookup_path r (ks @ [k]) = Some v)"
proof (induction ks arbitrary: base ovs r)
  case Nil
  from lookup_path_ConsD[of base k "[]" v] Nil.prems(3) obtain d where
    base: "base = JDict d" and old: "map_of d k = Some v" by auto
  from deep_update_dict_result[OF Nil.prems(2)[unfolded base]] obtain d' where
    r: "r = JDict d'" by blast
  from Nil.prems(1) have dist: "distinct (map fst ovs)" by simp
  from deep_update_keeps_key[OF dist Nil.prems(2)[unfolded base r] old]
  show ?case unfolding r by (auto split: option.splits)
next
  case (Cons k1 ks)
  from lookup_path_ConsD[of base k1 "ks @ [k]" v] Cons.prems(3) obtain d s where
    base: "base = JDict d" and s: "map_of d k1 = Some s"
    and below: "lookup_path s (ks @ [k]) = Some v" by auto
  from deep_update_dict_result[OF Cons.prems(2)[unfolded base]] obtain d' where
    r: "r = JDict d'" by blast
  from Cons.prems(1) have dist: "distinct (map fst ovs)" by simp
  note upd = Cons.prems(2)[unfolded base r]
  show ?case
  proof (cases "map_of ovs k1")
    case None
    then have "k1 \<notin> fst ` set ovs" by (simp add: map_of_eq_None_iff)
    from deep_update_other_key[OF upd this] s have "map_of d' k1 = Some s" by simp
    with below show ?thesis unfolding r by simp
  next
    case (Some x)
    then have mem: "(k1, x) \<in> set ovs" by (rule map_of_SomeD)
    from Cons.prems(4) Some obtain p ps where x: "x = JDict (p # ps)"
      and kept: "level_kept (p # ps) ks"
      by (cases x rule: nonempty_dict.cases) auto
    from deep_update_node_key[OF dist mem[unfolded x] upd] s obtain m where
      m: "deep_update s (p # ps) = Inr m" and at: "map_of d' k1 = Some m"
      by (auto simp: dict_get_def)
    have wf: "wf_json (JDict (p # ps))"
      using wf_json_item[OF Cons.prems(1) mem] x by simp
    from Cons.IH[OF wf m below kept] at Some x show ?thesis
      unfolding r by simp
  qed
qed

lemma rehydrate_keeps_key:
  assumes dist: "distinct (map fst ovs)"
    and upd: "deep_update_rehydrate (JDict d) ovs = Inr (JDict d')"
    and old: "map_of d k = Some v"
  shows "map_of d' k \<noteq> None \<and> (map_of ovs k = None \<longrightarrow> map_of d' k = Some v)"
proof (cases "map_of ovs k")
  case None
  then have "k \<notin> fst ` set ovs" by (simp add: map_of_eq_None_iff)
  from rehydrate_other_key[OF upd this] old show ?thesis by simp
next
  case (Some x)
  then have mem: "(k, x) \<in> set ovs" by (rule map_of_SomeD)
  show ?thesis
  proof (cases "is_dict x")
    case True
    then obtain u where x: "x = JDict u" by (cases x) auto
    from rehydrate_node_key[OF dist mem[unfolded x] upd] Some show ?thesis by auto
  next
    case False
    from rehydrate_leaf_key[OF dist mem False upd] Some show ?thesis by simp
  qed
qed

lemma rehydrate_keeps_path:
  "wf_json (JDict ovs) \<Longrightarrow> deep_update_rehydrate base ovs = Inr r \<Longrightarrow>
   lookup_path base (ks @ [k]) = Some v \<Longrightarrow> level_kept_rehydrate ovs ks \<Longrightarrow>
   lookup_path r (ks @ [k]) \<noteq> None
   \<and> (lookup_path (JDict ovs) (ks @ [k]) = None \<longrightarrow> lookup_path r (ks @ [k]) = Some v)"
proof (induction ks arbitrary: base ovs r)
  case Nil
  from lookup_path_ConsD[of base k "[]" v] Nil.prems(3) obtain d where
    base: "base = JDict d" and old: "map_of d k = Some v" by auto
  from rehydrate_dict_result[OF Nil.prems(2)[unfolded base]] obtain d' where
    r: "r = JDict d'" by blast
  from Nil.prems(1) have dist: "distinct (map fst ovs)" by simp
  from rehydrate_keeps_key[OF dist Nil.prems(2)[unfolded base r] old]
  show ?case unfolding r by (auto split: option.splits)
next
  case (Cons k1 ks)
  from lookup_path_ConsD[of base k1 "ks @ [k]" v] Cons.prems(3) obtain d s where
    base: "base = JDict d" and s: "map_of d k1 = Some s"
    and below: "lookup_path s (ks @ [k]) = Some v" by auto
  from rehydrate_dict_result[OF Cons.prems(2)[unfolded base]] obtain d' where
    r: "r = JDict d'" by blast
  from Cons.prems(1) have dist: "distinct (map fst ovs)" by simp
  note upd = Cons.prems(2)[unfolded base r]
  show ?case
  proof (cases "map_of ovs k1")
    case None
    then have "k1 \<notin> fst ` set ovs" by (simp add: map_of_eq_None_iff)
    from rehydrate_other_key[OF upd this] s have "map_of d' k1 = Some s" by simp
    with below show ?thesis unfolding r by simp
  next
    case (Some x)
    then have mem: "(k1, x) \<in> set ovs" by (rule map_of_SomeD)
    from Cons.prems(4) Some obtain u where x: "x = JDict u"
      and kept: "level_kept_rehydrate u ks"
      by (cases x) auto
    from rehydrate_node_key[OF dist mem[unfolded x] upd] s obtain m where
      m: "deep_update_rehydrate s u = Inr m" and at: "map_of d' k1 = Some m"
      by (auto simp: dict_get_def)
    have wf: "wf_json (JDict u)"
      using wf_json_item[OF Cons.prems(1) mem] x by simp
    from Cons.IH[OF wf m below kept] at Some x show ?thesis
      unfolding r by simp
  qed
qed

subsection \<open>The one-level merge of \<^verbatim>\<open>update_translations.py\<close>\<close>

lemma assign_sub_items_dict:
  "distinct (map fst sub) \<Longrightarrow>
   \<exists>c'. assign_sub_items (JDict c) sub = Inr (JDict c') \<and> map_of c' = map_of c ++ map_of sub"
proof (induction sub arbitrary: c)
  case Nil
  then show ?case by simp
next
  case (Cons a sub)
  obtain sk sv where a: "a = (sk, sv)" by (cases a)
  from Cons.prems a have notin: "sk \<notin> fst ` set sub" and dist: "distinct (map fst sub)" by auto
  from Cons.IH[OF dist, of "dict_set c sk sv"] obtain c' where
    c': "assign_sub_items (JDict (dict_set c sk sv)) sub = Inr (JDict c')"
    and m: "map_of c' = map_of (dict_set c sk sv) ++ map_of sub" by blast
  from notin have none: "map_of sub sk = None" by (simp add: map_of_eq_None_iff)
  have eq: "map_of (dict_set c sk sv) ++ map_of sub = map_of c ++ map_of ((sk, sv) # sub)"
  proof (rule ext)
    fix x
    show "(map_of (dict_set c sk sv) ++ map_of sub) x = (map_of c ++ map_of ((sk, sv) # sub)) x"
      using none
      by (cases "x = sk") (simp_all add: dict_set_def update_conv' map_add_def split: option.splits)
  qed
  have "assign_sub_items (JDict c) ((sk, sv) # sub) = Inr (JDict c')"
    using c' by simp
  moreover have "map_of c' = map_of c ++ map_of ((sk, sv) # sub)"
    using m eq by (simp only:)
  ultimately show ?case unfolding a by blast
qed

lemma update_json_file_merge_Cons:
  assumes "update_json_file_merge data ((key, val) # rest) = Inr r"
  shows "\<exists>x. update_json_file_merge (dict_set data key x) rest = Inr r
           \<and> (\<forall>cur sub. map_of data key = Some cur \<longrightarrow> val = JDict sub \<longrightarrow>
                  assign_sub_items cur sub = Inr x)"
  using assms by (auto split: option.splits json.splits sum.splits)

lemma update_json_file_merge_other_key:
  "update_json_file_merge data new_data = Inr r \<Longrightarrow> k \<notin> fst ` set new_data \<Longrightarrow>
   map_of r k = map_of data k"
proof (induction new_data arbitrary: data)
  case Nil
  then show ?case by simp
next
  case (Cons a new_data)
  obtain key val where a: "a = (key, val)" by (cases a)
  from Cons.prems(2) a have neq: "k \<noteq> key" and notin: "k \<notin> fst ` set new_data" by auto
  from update_json_file_merge_Cons[OF Cons.prems(1)[unfolded a]] obtain x where
    "update_json_file_merge (dict_set data key x) new_data = Inr r" by blast
  from Cons.IH[OF this notin] neq show ?case
    by (simp add: dict_set_def update_conv')
qed

lemma update_json_file_merge_node_key:
  "distinct (map fst new_data) \<Longrightarrow> (key, JDict sub) \<in> set new_data \<Longrightarrow>
   map_of data key = Some cur \<Longrightarrow> update_json_file_merge data new_data = Inr r \<Longrightarrow>
   \<exists>cur'. assign_sub_items cur sub = Inr cur' \<and> map_of r key = Some cur'"
proof (induction new_data arbitrary: data)
  case Nil
  then show ?case by simp
next
  case (Cons a new_data)
  obtain k v where a: "a = (k, v)" by (cases a)
  from update_json_file_merge_Cons[OF Cons.prems(4)[unfolded a]] obtain x where
    rest: "update_json_file_merge (dict_set data k x) new_data = Inr r"
    and x: "\<And>cur sub. map_of data k = Some cur \<Longrightarrow> v = JDict sub \<Longrightarrow>
                  assign_sub_items cur sub = Inr x" by blast
  show ?case
  proof (cases "(key, JDict sub) = a")
    case True
    with a have kv: "k = key" "v = JDict sub" by auto
    from Cons.prems(1) a kv have notin: "key \<notin> fst ` set new_data" by auto
    from update_json_file_merge_other_key[OF rest notin] x[OF Cons.prems(3)[folded kv(1)] kv(2)] kv
    show ?thesis by (simp add: dict_set_def update_conv')
  next
    case False
    with Cons.prems(2) have mem: "(key, JDict sub) \<in> set new_data" by auto
    from Cons.prems(1) have dist: "distinct (map fst new_data)" by simp
    from Cons.prems(1) a mem have neq: "key \<noteq> k" by force
    from neq Cons.prems(3) have "map_of (dict_set data k x) key = Some cur"
      by (simp add: dict_set_def update_conv')
    from Cons.IH[OF dist mem this rest] show ?thesis .
  qed
qed

section \<open>The claims about the merge\<close>

text \<open>
  C8. Merging with an empty overrides node is the identity: for every tree \<open>T\<close>,
  \<^verbatim>\<open>deep_update(T, {})\<close> returns \<open>T\<close> itself, with no key added, removed or modified.
\<close>

theorem deep_update_empty_overrides: "deep_update T [] = Inr T"
  by simp

text \<open>
  C7. Merging is idempotent in the overrides: whenever \<^verbatim>\<open>deep_update(T, O)\<close> succeeds
  with result \<open>r\<close>, merging \<open>O\<close> into \<open>r\<close> again succeeds and returns \<open>r\<close>, so
  \<^verbatim>\<open>merge(merge(T, O), O) = merge(T, O)\<close>. The overrides are a Python dictionary: no
  dictionary in them holds a key twice.
\<close>

theorem deep_update_idempotent:
  "wf_json (JDict ovs) \<Longrightarrow> deep_update T ovs = Inr r \<Longrightarrow> deep_update r ovs = deep_update T ovs"
  using deep_update_idem_aux[of ovs T r] by simp

theorem deep_update_idempotent_witness:
  "wf_json (JDict [(''a'', JDict [(''y'', JStr ''2'')]), (''b'', JDict []), (''c'', JStr ''3'')])
   \<and> deep_update (JDict [(''a'', JDict [(''x'', JStr ''1'')]), (''b'', JStr ''0'')])
         [(''a'', JDict [(''y'', JStr ''2'')]), (''b'', JDict []), (''c'', JStr ''3'')]
       = Inr (JDict [(''a'', JDict [(''x'', JStr ''1''), (''y'', JStr ''2'')]),
                     (''b'', JDict []), (''c'', JStr ''3'')])
   \<and> deep_update (JDict [(''a'', JDict [(''x'', JStr ''1''), (''y'', JStr ''2'')]),
                       (''b'', JDict []), (''c'', JStr ''3'')])
         [(''a'', JDict [(''y'', JStr ''2'')]), (''b'', JDict []), (''c'', JStr ''3'')]
       = deep_update (JDict [(''a'', JDict [(''x'', JStr ''1'')]), (''b'', JStr ''0'')])
           [(''a'', JDict [(''y'', JStr ''2'')]), (''b'', JDict []), (''c'', JStr ''3'')]"
proof -
  have w: "wf_json (JDict [(''a'', JDict [(''y'', JStr ''2'')]), (''b'', JDict []), (''c'', JStr ''3'')])"
    by simp
  have m: "deep_update (JDict [(''a'', JDict [(''x'', JStr ''1'')]), (''b'', JStr ''0'')])
         [(''a'', JDict [(''y'', JStr ''2'')]), (''b'', JDict []), (''c'', JStr ''3'')]
       = Inr (JDict [(''a'', JDict [(''x'', JStr ''1''), (''y'', JStr ''2'')]),
                     (''b'', JDict []), (''c'', JStr ''3'')])"
    by (simp add: dict_get_def dict_set_def)
  show ?thesis
    by (intro conjI w m deep_update_idempotent[OF w m])
qed

text \<open>
  C2, as stated, fails: with a leaf in the base and a non-empty node in the overrides at
  the same key, both variants call the recursive branch on the leaf and the assignment
  into a string raises \<^verbatim>\<open>TypeError\<close>.
\<close>

theorem deep_update_leaf_under_node_raises:
  "deep_update (JDict [(''a'', JStr ''x'')]) [(''a'', JDict [(''b'', JStr ''c'')])] = Inl TypeError
   \<and> deep_update_rehydrate (JDict [(''a'', JStr ''x'')]) [(''a'', JDict [(''b'', JStr ''c'')])]
       = Inl TypeError"
  by (simp add: dict_get_def)

text \<open>
  C2 (amended). For overrides that are a Python dictionary, the merge completes without
  raising exactly when base and overrides are \<open>mergeable\<close>: the overrides are empty, or
  the base is a node and, at every key where the overrides hold a non-empty node, the
  base holds nothing or a value that is mergeable with that node in turn. Otherwise it
  raises. This holds for both variants.
\<close>

theorem deep_update_total_iff_mergeable:
  "wf_json (JDict ovs) \<Longrightarrow>
   (\<exists>r. deep_update source ovs = Inr r) = mergeable source ovs
   \<and> (\<exists>r. deep_update_rehydrate source ovs = Inr r) = mergeable source ovs"
  using deep_update_mergeable[of ovs source] rehydrate_mergeable[of ovs source] by simp

theorem deep_update_total_iff_mergeable_witness:
  "wf_json (JDict [(''a'', JDict [(''y'', JStr ''2'')]), (''b'', JDict [(''z'', JStr ''3'')])])
   \<and> mergeable (JDict [(''a'', JDict [(''x'', JStr ''1'')])])
        [(''a'', JDict [(''y'', JStr ''2'')]), (''b'', JDict [(''z'', JStr ''3'')])]
   \<and> (\<exists>r. deep_update (JDict [(''a'', JDict [(''x'', JStr ''1'')])])
        [(''a'', JDict [(''y'', JStr ''2'')]), (''b'', JDict [(''z'', JStr ''3'')])] = Inr r)
   \<and> (\<exists>r. deep_update_rehydrate (JDict [(''a'', JDict [(''x'', JStr ''1'')])])
        [(''a'', JDict [(''y'', JStr ''2'')]), (''b'', JDict [(''z'', JStr ''3'')])] = Inr r)"
proof -
  have w: "wf_json (JDict [(''a'', JDict [(''y'', JStr ''2'')]), (''b'', JDict [(''z'', JStr ''3'')])])"
    by simp
  have m: "mergeable (JDict [(''a'', JDict [(''x'', JStr ''1'')])])
        [(''a'', JDict [(''y'', JStr ''2'')]), (''b'', JDict [(''z'', JStr ''3'')])]"
    by (simp add: dict_get_def)
  from deep_update_total_iff_mergeable[OF w, of "JDict [(''a'', JDict [(''x'', JStr ''1'')])]"] m
  have "(\<exists>r. deep_update (JDict [(''a'', JDict [(''x'', JStr ''1'')])])
        [(''a'', JDict [(''y'', JStr ''2'')]), (''b'', JDict [(''z'', JStr ''3'')])] = Inr r)"
    and "(\<exists>r. deep_update_rehydrate (JDict [(''a'', JDict [(''x'', JStr ''1'')])])
        [(''a'', JDict [(''y'', JStr ''2'')]), (''b'', JDict [(''z'', JStr ''3'')])] = Inr r)"
    by blast+
  with w m show ?thesis by (intro conjI)
qed

text \<open>
  C4, as stated, fails: a key that is a node in both trees, with the empty node in the
  overrides, does not receive the recursive merge of the two nodes (which would be the
  base's node, by C8) but the empty node.
\<close>

theorem deep_update_empty_node_not_merged:
  "deep_update (JDict [(''a'', JDict [(''x'', JStr ''1'')])]) [(''a'', JDict [])]
     = Inr (JDict [(''a'', JDict [])])
   \<and> deep_update (JDict [(''x'', JStr ''1'')]) [] = Inr (JDict [(''x'', JStr ''1'')])"
  by (simp add: dict_set_def)

text \<open>
  C4 (amended). When the merge of a base node with the overrides succeeds, every key of
  the overrides is present in the result: where the overrides hold a non-empty node, the
  result holds the recursive merge of that node into the base's value at the key (the
  empty node when the base lacks the key); at every other key of the overrides, the empty
  node included, the result holds the overrides' value.
\<close>

theorem deep_update_result_at_key:
  "distinct (map fst ovs) \<Longrightarrow> deep_update (JDict d) ovs = Inr r \<Longrightarrow> (k, v) \<in> set ovs \<Longrightarrow>
   \<exists>d'. r = JDict d' \<and>
     (case v of
        JDict (p # ps) \<Rightarrow>
          \<exists>m. deep_update (dict_get d k (JDict [])) (p # ps) = Inr m \<and> map_of d' k = Some m
      | _ \<Rightarrow> map_of d' k = Some v)"
proof -
  assume dist: "distinct (map fst ovs)" and upd: "deep_update (JDict d) ovs = Inr r"
    and mem: "(k, v) \<in> set ovs"
  from deep_update_dict_result[OF upd] obtain d' where r: "r = JDict d'" by blast
  have "case v of
        JDict (p # ps) \<Rightarrow>
          \<exists>m. deep_update (dict_get d k (JDict [])) (p # ps) = Inr m \<and> map_of d' k = Some m
      | _ \<Rightarrow> map_of d' k = Some v"
  proof (cases "nonempty_dict v")
    case True
    then obtain p ps where v: "v = JDict (p # ps)"
      by (cases v rule: nonempty_dict.cases) auto
    from deep_update_node_key[OF dist mem[unfolded v] upd[unfolded r]] v show ?thesis by simp
  next
    case False
    from deep_update_leaf_key[OF dist mem False upd[unfolded r]] False show ?thesis
      by (cases v rule: nonempty_dict.cases) simp_all
  qed
  with r show ?thesis by blast
qed

theorem deep_update_result_at_key_witness:
  "distinct (map fst [(''a'', JDict [(''y'', JStr ''2'')]), (''b'', JDict []), (''c'', JStr ''3'')])
   \<and> deep_update (JDict [(''a'', JDict [(''x'', JStr ''1'')]), (''b'', JStr ''0'')])
         [(''a'', JDict [(''y'', JStr ''2'')]), (''b'', JDict []), (''c'', JStr ''3'')]
       = Inr (JDict [(''a'', JDict [(''x'', JStr ''1''), (''y'', JStr ''2'')]),
                     (''b'', JDict []), (''c'', JStr ''3'')])
   \<and> (''a'', JDict [(''y'', JStr ''2'')])
       \<in> set [(''a'', JDict [(''y'', JStr ''2'')]), (''b'', JDict []), (''c'', JStr ''3'')]
   \<and> (\<exists>m. deep_update (dict_get [(''a'', JDict [(''x'', JStr ''1'')]), (''b'', JStr ''0'')] ''a'' (JDict []))
             [(''y'', JStr ''2'')] = Inr m
          \<and> map_of [(''a'', JDict [(''x'', JStr ''1''), (''y'', JStr ''2'')]),
                     (''b'', JDict []), (''c'', JStr ''3'')] ''a'' = Some m)
   \<and> (''b'', JDict [])
       \<in> set [(''a'', JDict [(''y'', JStr ''2'')]), (''b'', JDict []), (''c'', JStr ''3'')]
   \<and> map_of [(''a'', JDict [(''x'', JStr ''1''), (''y'', JStr ''2'')]),
               (''b'', JDict []), (''c'', JStr ''3'')] ''b'' = Some (JDict [])"
proof -
  have dist: "distinct (map fst [(''a'', JDict [(''y'', JStr ''2'')]), (''b'', JDict []), (''c'', JStr ''3'')])"
    by simp
  have upd: "deep_update (JDict [(''a'', JDict [(''x'', JStr ''1'')]), (''b'', JStr ''0'')])
         [(''a'', JDict [(''y'', JStr ''2'')]), (''b'', JDict []), (''c'', JStr ''3'')]
       = Inr (JDict [(''a'', JDict [(''x'', JStr ''1''), (''y'', JStr ''2'')]),
                     (''b'', JDict []), (''c'', JStr ''3'')])"
    by (simp add: dict_get_def dict_set_def)
  have mem: "(''a'', JDict [(''y'', JStr ''2'')])
       \<in> set [(''a'', JDict [(''y'', JStr ''2'')]), (''b'', JDict []), (''c'', JStr ''3'')]"
    by simp
  have mem': "(''b'', JDict [])
       \<in> set [(''a'', JDict [(''y'', JStr ''2'')]), (''b'', JDict []), (''c'', JStr ''3'')]"
    by simp
  from deep_update_result_at_key[OF dist upd mem]
  have node: "\<exists>m. deep_update (dict_get [(''a'', JDict [(''x'', JStr ''1'')]), (''b'', JStr ''0'')] ''a'' (JDict []))
             [(''y'', JStr ''2'')] = Inr m
          \<and> map_of [(''a'', JDict [(''x'', JStr ''1''), (''y'', JStr ''2'')]),
                     (''b'', JDict []), (''c'', JStr ''3'')] ''a'' = Some m"
    by (simp del: deep_update.simps map_of.simps)
  from deep_update_result_at_key[OF dist upd mem']
  have leaf: "map_of [(''a'', JDict [(''x'', JStr ''1''), (''y'', JStr ''2'')]),
               (''b'', JDict []), (''c'', JStr ''3'')] ''b'' = Some (JDict [])"
    by (simp del: deep_update.simps map_of.simps)
  from dist upd mem node mem' leaf show ?thesis by (intro conjI)
qed

text \<open>
  C5, as stated, fails: a base value that is present and is not a node is not treated as
  the empty node. Merging a non-empty node over the leaf \<^verbatim>\<open>"s"\<close> raises, whereas over the
  empty node it succeeds.
\<close>

theorem deep_update_leaf_not_treated_as_empty:
  "deep_update (JDict [(''t'', JStr ''s'')]) [(''t'', JDict [(''n'', JDict [(''c'', JStr ''d'')])])]
     = Inl AttributeError
   \<and> deep_update (JDict [(''t'', JDict [])]) [(''t'', JDict [(''n'', JDict [(''c'', JStr ''d'')])])]
     = Inr (JDict [(''t'', JDict [(''n'', JDict [(''c'', JStr ''d'')])])])"
  by (simp add: dict_get_def dict_set_def)

text \<open>
  C5 (amended). For every key \<open>k\<close> at which the overrides hold a non-empty node: when the
  merge succeeds, the result holds at \<open>k\<close> the recursive merge of that node into the
  base's value at \<open>k\<close>, a missing value being treated as the empty node; and when the
  base's value at \<open>k\<close> is present and is not a node, the merge raises.
\<close>

theorem deep_update_node_key_merge:
  "distinct (map fst ovs) \<Longrightarrow> (k, JDict (p # ps)) \<in> set ovs \<Longrightarrow>
   (\<forall>r. deep_update (JDict d) ovs = Inr r \<longrightarrow>
      (\<exists>d' m. r = JDict d' \<and> map_of d' k = Some m \<and>
         deep_update (case map_of d k of None \<Rightarrow> JDict [] | Some b \<Rightarrow> b) (p # ps) = Inr m))
   \<and> (\<forall>b. map_of d k = Some b \<longrightarrow> \<not> is_dict b \<longrightarrow> (\<exists>e. deep_update (JDict d) ovs = Inl e))"
proof (intro conjI allI impI)
  fix r
  assume dist: "distinct (map fst ovs)" and mem: "(k, JDict (p # ps)) \<in> set ovs"
    and upd: "deep_update (JDict d) ovs = Inr r"
  from deep_update_dict_result[OF upd] obtain d' where r: "r = JDict d'" by blast
  from deep_update_node_key[OF dist mem upd[unfolded r]] r
  show "\<exists>d' m. r = JDict d' \<and> map_of d' k = Some m \<and>
         deep_update (case map_of d k of None \<Rightarrow> JDict [] | Some b \<Rightarrow> b) (p # ps) = Inr m"
    unfolding dict_get_def by blast
next
  fix b
  assume dist: "distinct (map fst ovs)" and mem: "(k, JDict (p # ps)) \<in> set ovs"
    and b: "map_of d k = Some b" and nd: "\<not> is_dict b"
  from nd have nd': "\<forall>d. b \<noteq> JDict d" by (cases b) auto
  show "\<exists>e. deep_update (JDict d) ovs = Inl e"
  proof (cases "deep_update (JDict d) ovs")
    case (Inl e)
    then show ?thesis by blast
  next
    case (Inr r)
    from deep_update_dict_result[OF Inr] obtain d' where r: "r = JDict d'" by blast
    from deep_update_node_key[OF dist mem Inr[unfolded r]] b
    obtain m where "deep_update b (p # ps) = Inr m" unfolding dict_get_def by auto
    with deep_update_nondict[OF nd', of "p # ps"] show ?thesis by simp
  qed
qed

theorem deep_update_node_key_merge_witness:
  "distinct (map fst [(''a'', JDict [(''y'', JStr ''2'')]), (''n'', JDict [(''z'', JStr ''3'')])])
   \<and> (''n'', JDict [(''z'', JStr ''3'')])
       \<in> set [(''a'', JDict [(''y'', JStr ''2'')]), (''n'', JDict [(''z'', JStr ''3'')])]
   \<and> deep_update (JDict [(''a'', JDict [(''x'', JStr ''1'')])])
        [(''a'', JDict [(''y'', JStr ''2'')]), (''n'', JDict [(''z'', JStr ''3'')])]
      = Inr (JDict [(''a'', JDict [(''x'', JStr ''1''), (''y'', JStr ''2'')]),
                    (''n'', JDict [(''z'', JStr ''3'')])])
   \<and> (\<exists>d' m. JDict [(''a'', JDict [(''x'', JStr ''1''), (''y'', JStr ''2'')]),
                    (''n'', JDict [(''z'', JStr ''3'')])] = JDict d'
        \<and> map_of d' ''n'' = Some m
        \<and> deep_update (JDict []) [(''z'', JStr ''3'')] = Inr m)
   \<and> map_of [(''n'', JStr ''s'')] ''n'' = Some (JStr ''s'')
   \<and> \<not> is_dict (JStr ''s'')
   \<and> (\<exists>e. deep_update (JDict [(''n'', JStr ''s'')])
          [(''a'', JDict [(''y'', JStr ''2'')]), (''n'', JDict [(''z'', JStr ''3'')])] = Inl e)"
proof -
  have dist: "distinct (map fst [(''a'', JDict [(''y'', JStr ''2'')]), (''n'', JDict [(''z'', JStr ''3'')])])"
    by simp
  have mem: "(''n'', JDict [(''z'', JStr ''3'')])
       \<in> set [(''a'', JDict [(''y'', JStr ''2'')]), (''n'', JDict [(''z'', JStr ''3'')])]"
    by simp
  have upd: "deep_update (JDict [(''a'', JDict [(''x'', JStr ''1'')])])
        [(''a'', JDict [(''y'', JStr ''2'')]), (''n'', JDict [(''z'', JStr ''3'')])]
      = Inr (JDict [(''a'', JDict [(''x'', JStr ''1''), (''y'', JStr ''2'')]),
                    (''n'', JDict [(''z'', JStr ''3'')])])"
    by (simp add: dict_get_def dict_set_def)
  have none: "map_of [(''a'', JDict [(''x'', JStr ''1'')])] ''n'' = None"
    by simp
  from deep_update_node_key_merge[OF dist mem, of "[(''a'', JDict [(''x'', JStr ''1'')])]"] upd
  have "\<exists>d' m. JDict [(''a'', JDict [(''x'', JStr ''1''), (''y'', JStr ''2'')]),
                    (''n'', JDict [(''z'', JStr ''3'')])] = JDict d'
        \<and> map_of d' ''n'' = Some m
        \<and> deep_update (case map_of [(''a'', JDict [(''x'', JStr ''1'')])] ''n'' of
                          None \<Rightarrow> JDict [] | Some b \<Rightarrow> b) [(''z'', JStr ''3'')] = Inr m"
    by blast
  then have stored: "\<exists>d' m. JDict [(''a'', JDict [(''x'', JStr ''1''), (''y'', JStr ''2'')]),
                    (''n'', JDict [(''z'', JStr ''3'')])] = JDict d'
        \<and> map_of d' ''n'' = Some m
        \<and> deep_update (JDict []) [(''z'', JStr ''3'')] = Inr m"
    unfolding none by (simp del: deep_update.simps map_of.simps)
  have leaf: "map_of [(''n'', JStr ''s'')] ''n'' = Some (JStr ''s'')"
    by simp
  have nd: "\<not> is_dict (JStr ''s'')"
    by simp
  from deep_update_node_key_merge[OF dist mem, of "[(''n'', JStr ''s'')]"] leaf nd
  have raises: "\<exists>e. deep_update (JDict [(''n'', JStr ''s'')])
          [(''a'', JDict [(''y'', JStr ''2'')]), (''n'', JDict [(''z'', JStr ''3'')])] = Inl e"
    by blast
  from dist mem upd stored leaf nd raises show ?thesis by (intro conjI)
qed

text \<open>
  C6, as stated, fails for the variant of \<^verbatim>\<open>rehydrate_ka.py\<close>, which has no emptiness
  test: there an empty node in the overrides leaves the base's value in place.
\<close>

theorem rehydrate_empty_node_keeps_base:
  "deep_update_rehydrate (JDict [(''a'', JDict [(''x'', JStr ''1'')])]) [(''a'', JDict [])]
     = Inr (JDict [(''a'', JDict [(''x'', JStr ''1'')])])"
  by (simp add: dict_get_def dict_set_def)

text \<open>
  C6 (amended). For every key \<open>k\<close> at which the overrides hold the empty node:
  \<^verbatim>\<open>deep_update\<close> of \<^verbatim>\<open>fix_ka_translation.py\<close> stores the empty node at \<open>k\<close>, whatever
  the base held there; \<^verbatim>\<open>deep_update\<close> of \<^verbatim>\<open>rehydrate_ka.py\<close> stores at \<open>k\<close> what the
  base held there, and the empty node only when the base lacks the key.
\<close>

theorem deep_update_empty_node_key:
  "distinct (map fst ovs) \<Longrightarrow> (k, JDict []) \<in> set ovs \<Longrightarrow>
   (\<forall>r. deep_update (JDict d) ovs = Inr r \<longrightarrow>
      (\<exists>d'. r = JDict d' \<and> map_of d' k = Some (JDict [])))
   \<and> (\<forall>r. deep_update_rehydrate (JDict d) ovs = Inr r \<longrightarrow>
      (\<exists>d'. r = JDict d' \<and>
         map_of d' k = Some (case map_of d k of None \<Rightarrow> JDict [] | Some b \<Rightarrow> b)))"
proof (intro conjI allI impI)
  fix r
  assume dist: "distinct (map fst ovs)" and mem: "(k, JDict []) \<in> set ovs"
    and upd: "deep_update (JDict d) ovs = Inr r"
  from deep_update_dict_result[OF upd] obtain d' where r: "r = JDict d'" by blast
  have "\<not> nonempty_dict (JDict [])" by simp
  from deep_update_leaf_key[OF dist mem this upd[unfolded r]] r
  show "\<exists>d'. r = JDict d' \<and> map_of d' k = Some (JDict [])" by blast
next
  fix r
  assume dist: "distinct (map fst ovs)" and mem: "(k, JDict []) \<in> set ovs"
    and upd: "deep_update_rehydrate (JDict d) ovs = Inr r"
  from rehydrate_dict_result[OF upd] obtain d' where r: "r = JDict d'" by blast
  from rehydrate_node_key[OF dist mem upd[unfolded r]] r
  show "\<exists>d'. r = JDict d' \<and>
         map_of d' k = Some (case map_of d k of None \<Rightarrow> JDict [] | Some b \<Rightarrow> b)"
    unfolding dict_get_def by simp
qed

theorem deep_update_empty_node_key_witness:
  "distinct (map fst [(''a'', JDict []), (''c'', JStr ''3'')])
   \<and> (''a'', JDict []) \<in> set [(''a'', JDict []), (''c'', JStr ''3'')]
   \<and> deep_update (JDict [(''a'', JDict [(''x'', JStr ''1'')])]) [(''a'', JDict []), (''c'', JStr ''3'')]
       = Inr (JDict [(''a'', JDict []), (''c'', JStr ''3'')])
   \<and> (\<exists>d'. JDict [(''a'', JDict []), (''c'', JStr ''3'')] = JDict d'
          \<and> map_of d' ''a'' = Some (JDict []))
   \<and> deep_update_rehydrate (JDict [(''a'', JDict [(''x'', JStr ''1'')])])
        [(''a'', JDict []), (''c'', JStr ''3'')]
       = Inr (JDict [(''a'', JDict [(''x'', JStr ''1'')]), (''c'', JStr ''3'')])
   \<and> (\<exists>d'. JDict [(''a'', JDict [(''x'', JStr ''1'')]), (''c'', JStr ''3'')] = JDict d'
          \<and> map_of d' ''a'' = Some (JDict [(''x'', JStr ''1'')]))"
proof -
  have dist: "distinct (map fst [(''a'', JDict []), (''c'', JStr ''3'')])"
    by simp
  have mem: "(''a'', JDict []) \<in> set [(''a'', JDict []), (''c'', JStr ''3'')]"
    by simp
  have upd: "deep_update (JDict [(''a'', JDict [(''x'', JStr ''1'')])]) [(''a'', JDict []), (''c'', JStr ''3'')]
       = Inr (JDict [(''a'', JDict []), (''c'', JStr ''3'')])"
    by (simp add: dict_set_def)
  have rh: "deep_update_rehydrate (JDict [(''a'', JDict [(''x'', JStr ''1'')])])
        [(''a'', JDict []), (''c'', JStr ''3'')]
       = Inr (JDict [(''a'', JDict [(''x'', JStr ''1'')]), (''c'', JStr ''3'')])"
    by (simp add: dict_get_def dict_set_def)
  have old: "map_of [(''a'', JDict [(''x'', JStr ''1'')])] ''a'' = Some (JDict [(''x'', JStr ''1'')])"
    by simp
  note both = deep_update_empty_node_key[OF dist mem, of "[(''a'', JDict [(''x'', JStr ''1'')])]"]
  from both upd
  have ovw: "\<exists>d'. JDict [(''a'', JDict []), (''c'', JStr ''3'')] = JDict d'
          \<and> map_of d' ''a'' = Some (JDict [])"
    by blast
  from both rh
  have "\<exists>d'. JDict [(''a'', JDict [(''x'', JStr ''1'')]), (''c'', JStr ''3'')] = JDict d'
          \<and> map_of d' ''a'' = Some (case map_of [(''a'', JDict [(''x'', JStr ''1'')])] ''a'' of
                                        None \<Rightarrow> JDict [] | Some b \<Rightarrow> b)"
    by blast
  then have keep: "\<exists>d'. JDict [(''a'', JDict [(''x'', JStr ''1'')]), (''c'', JStr ''3'')] = JDict d'
          \<and> map_of d' ''a'' = Some (JDict [(''x'', JStr ''1'')])"
    unfolding old by (simp del: map_of.simps)
  from dist mem upd ovw rh keep show ?thesis by (intro conjI)
qed

text \<open>
  C9, as stated, fails for \<^verbatim>\<open>deep_update\<close> of \<^verbatim>\<open>fix_ka_translation.py\<close>: the key \<open>a\<close> is a
  node in the base and a node (the empty one) in the overrides, and the key \<open>x\<close> below
  it, which the overrides do not contain, is gone after the merge.
\<close>

theorem deep_update_empty_node_deletes_keys:
  "deep_update (JDict [(''a'', JDict [(''x'', JStr ''1'')])]) [(''a'', JDict [])]
     = Inr (JDict [(''a'', JDict [])])
   \<and> lookup_path (JDict [(''a'', JDict [(''x'', JStr ''1'')])]) [''a'', ''x''] = Some (JStr ''1'')
   \<and> lookup_path (JDict [(''a'', JDict [])]) [''a''] = Some (JDict [])
   \<and> lookup_path (JDict [(''a'', JDict [])]) [''a'', ''x''] = None"
  by (simp add: dict_set_def)

text \<open>
  C9 (amended). A key \<open>k\<close> of the base at the level \<open>ks\<close> is still present after a
  successful merge, and keeps its old value unless the overrides contain it, provided
  that on the way down to the level the overrides hold at each key nothing or a
  non-empty node (\<^verbatim>\<open>fix_ka_translation.py\<close>), respectively nothing or any node
  (\<^verbatim>\<open>rehydrate_ka.py\<close>). Top-level keys (\<open>ks = []\<close>) are always kept.
\<close>

theorem merge_keeps_base_keys:
  "wf_json (JDict ovs) \<Longrightarrow> lookup_path base (ks @ [k]) = Some v \<Longrightarrow>
   (\<forall>r. level_kept ovs ks \<longrightarrow> deep_update base ovs = Inr r \<longrightarrow>
      lookup_path r (ks @ [k]) \<noteq> None
      \<and> (lookup_path (JDict ovs) (ks @ [k]) = None \<longrightarrow> lookup_path r (ks @ [k]) = Some v))
   \<and> (\<forall>r. level_kept_rehydrate ovs ks \<longrightarrow> deep_update_rehydrate base ovs = Inr r \<longrightarrow>
      lookup_path r (ks @ [k]) \<noteq> None
      \<and> (lookup_path (JDict ovs) (ks @ [k]) = None \<longrightarrow> lookup_path r (ks @ [k]) = Some v))"
  using deep_update_keeps_path[of ovs base _ ks k v] rehydrate_keeps_path[of ovs base _ ks k v]
  by blast

theorem merge_keeps_base_keys_witness:
  "wf_json (JDict [(''a'', JDict [(''y'', JStr ''2'')])])
   \<and> lookup_path (JDict [(''a'', JDict [(''x'', JStr ''1'')]), (''b'', JStr ''0'')]) ([''a''] @ [''x''])
       = Some (JStr ''1'')
   \<and> level_kept [(''a'', JDict [(''y'', JStr ''2'')])] [''a'']
   \<and> deep_update (JDict [(''a'', JDict [(''x'', JStr ''1'')]), (''b'', JStr ''0'')])
        [(''a'', JDict [(''y'', JStr ''2'')])]
      = Inr (JDict [(''a'', JDict [(''x'', JStr ''1''), (''y'', JStr ''2'')]), (''b'', JStr ''0'')])
   \<and> level_kept_rehydrate [(''a'', JDict [(''y'', JStr ''2'')])] [''a'']
   \<and> deep_update_rehydrate (JDict [(''a'', JDict [(''x'', JStr ''1'')]), (''b'', JStr ''0'')])
        [(''a'', JDict [(''y'', JStr ''2'')])]
      = Inr (JDict [(''a'', JDict [(''x'', JStr ''1''), (''y'', JStr ''2'')]), (''b'', JStr ''0'')])
   \<and> lookup_path (JDict [(''a'', JDict [(''y'', JStr ''2'')])]) ([''a''] @ [''x'']) = None
   \<and> lookup_path (JDict [(''a'', JDict [(''x'', JStr ''1''), (''y'', JStr ''2'')]), (''b'', JStr ''0'')])
        ([''a''] @ [''x'']) = Some (JStr ''1'')"
proof -
  have w: "wf_json (JDict [(''a'', JDict [(''y'', JStr ''2'')])])"
    by simp
  have p: "lookup_path (JDict [(''a'', JDict [(''x'', JStr ''1'')]), (''b'', JStr ''0'')]) ([''a''] @ [''x''])
       = Some (JStr ''1'')"
    by simp
  have l: "level_kept [(''a'', JDict [(''y'', JStr ''2'')])] [''a'']"
    by simp
  have u: "deep_update (JDict [(''a'', JDict [(''x'', JStr ''1'')]), (''b'', JStr ''0'')])
        [(''a'', JDict [(''y'', JStr ''2'')])]
      = Inr (JDict [(''a'', JDict [(''x'', JStr ''1''), (''y'', JStr ''2'')]), (''b'', JStr ''0'')])"
    by (simp add: dict_get_def dict_set_def)
  have l': "level_kept_rehydrate [(''a'', JDict [(''y'', JStr ''2'')])] [''a'']"
    by simp
  have u': "deep_update_rehydrate (JDict [(''a'', JDict [(''x'', JStr ''1'')]), (''b'', JStr ''0'')])
        [(''a'', JDict [(''y'', JStr ''2'')])]
      = Inr (JDict [(''a'', JDict [(''x'', JStr ''1''), (''y'', JStr ''2'')]), (''b'', JStr ''0'')])"
    by (simp add: dict_get_def dict_set_def)
  have n: "lookup_path (JDict [(''a'', JDict [(''y'', JStr ''2'')])]) ([''a''] @ [''x'']) = None"
    by simp
  from merge_keeps_base_keys[OF w p] l' u' n
  have "lookup_path (JDict [(''a'', JDict [(''x'', JStr ''1''), (''y'', JStr ''2'')]), (''b'', JStr ''0'')])
        ([''a''] @ [''x'']) = Some (JStr ''1'')"
    by blast
  with w p l u l' u' n show ?thesis by (intro conjI)
qed

text \<open>
  C10. The merge step of \<^verbatim>\<open>update_json_file\<close> in \<^verbatim>\<open>update_translations.py\<close> goes one level
  deep: for a top-level key that holds a node in the base and a node in the new data,
  the base's node receives every second-level entry of the new data by plain assignment
  and keeps its other entries. A second-level value of the new data therefore replaces
  the base's value as a whole, also when both are nodes. (The witness runs an input on
  which \<open>deep_update\<close> merges the two second-level nodes instead.)
\<close>

theorem update_json_file_merge_one_level:
  "distinct (map fst new_data) \<Longrightarrow> (key, JDict sub) \<in> set new_data \<Longrightarrow>
   distinct (map fst sub) \<Longrightarrow> map_of data key = Some (JDict b) \<Longrightarrow>
   update_json_file_merge data new_data = Inr r \<Longrightarrow>
   \<exists>b'. map_of r key = Some (JDict b') \<and>
     (\<forall>sub_key. map_of b' sub_key =
        (case map_of sub sub_key of Some sub_value \<Rightarrow> Some sub_value | None \<Rightarrow> map_of b sub_key))"
proof -
  assume dist: "distinct (map fst new_data)" and mem: "(key, JDict sub) \<in> set new_data"
    and dsub: "distinct (map fst sub)" and cur: "map_of data key = Some (JDict b)"
    and upd: "update_json_file_merge data new_data = Inr r"
  from update_json_file_merge_node_key[OF dist mem cur upd] obtain cur' where
    c: "assign_sub_items (JDict b) sub = Inr cur'" and at: "map_of r key = Some cur'" by blast
  from assign_sub_items_dict[OF dsub, of b] c obtain b' where
    b': "cur' = JDict b'" and m: "map_of b' = map_of b ++ map_of sub" by auto
  have "\<forall>sub_key. map_of b' sub_key =
        (case map_of sub sub_key of Some sub_value \<Rightarrow> Some sub_value | None \<Rightarrow> map_of b sub_key)"
    unfolding m by (simp add: map_add_def split: option.splits)
  with at b' show ?thesis by blast
qed

theorem update_json_file_merge_one_level_witness:
  "distinct (map fst [(''a'', JDict [(''n'', JDict [(''y'', JStr ''2'')])])])
   \<and> (''a'', JDict [(''n'', JDict [(''y'', JStr ''2'')])])
       \<in> set [(''a'', JDict [(''n'', JDict [(''y'', JStr ''2'')])])]
   \<and> distinct (map fst [(''n'', JDict [(''y'', JStr ''2'')])])
   \<and> map_of [(''a'', JDict [(''n'', JDict [(''x'', JStr ''1'')]), (''m'', JStr ''0'')])] ''a''
       = Some (JDict [(''n'', JDict [(''x'', JStr ''1'')]), (''m'', JStr ''0'')])
   \<and> update_json_file_merge
        [(''a'', JDict [(''n'', JDict [(''x'', JStr ''1'')]), (''m'', JStr ''0'')])]
        [(''a'', JDict [(''n'', JDict [(''y'', JStr ''2'')])])]
      = Inr [(''a'', JDict [(''n'', JDict [(''y'', JStr ''2'')]), (''m'', JStr ''0'')])]
   \<and> (\<exists>b'. map_of [(''a'', JDict [(''n'', JDict [(''y'', JStr ''2'')]), (''m'', JStr ''0'')])] ''a''
              = Some (JDict b')
          \<and> map_of b' ''n'' = Some (JDict [(''y'', JStr ''2'')])
          \<and> map_of b' ''m'' = Some (JStr ''0''))
   \<and> deep_update (JDict [(''a'', JDict [(''n'', JDict [(''x'', JStr ''1'')]), (''m'', JStr ''0'')])])
        [(''a'', JDict [(''n'', JDict [(''y'', JStr ''2'')])])]
      = Inr (JDict [(''a'', JDict [(''n'', JDict [(''x'', JStr ''1''), (''y'', JStr ''2'')]),
                                   (''m'', JStr ''0'')])])"
proof -
  have d1: "distinct (map fst [(''a'', JDict [(''n'', JDict [(''y'', JStr ''2'')])])])"
    by simp
  have mem: "(''a'', JDict [(''n'', JDict [(''y'', JStr ''2'')])])
       \<in> set [(''a'', JDict [(''n'', JDict [(''y'', JStr ''2'')])])]"
    by simp
  have d2: "distinct (map fst [(''n'', JDict [(''y'', JStr ''2'')])])"
    by simp
  have cur: "map_of [(''a'', JDict [(''n'', JDict [(''x'', JStr ''1'')]), (''m'', JStr ''0'')])] ''a''
       = Some (JDict [(''n'', JDict [(''x'', JStr ''1'')]), (''m'', JStr ''0'')])"
    by simp
  have upd: "update_json_file_merge
        [(''a'', JDict [(''n'', JDict [(''x'', JStr ''1'')]), (''m'', JStr ''0'')])]
        [(''a'', JDict [(''n'', JDict [(''y'', JStr ''2'')])])]
      = Inr [(''a'', JDict [(''n'', JDict [(''y'', JStr ''2'')]), (''m'', JStr ''0'')])]"
    by (simp add: dict_set_def)
  from update_json_file_merge_one_level[OF d1 mem d2 cur upd] obtain b' where
    at: "map_of [(''a'', JDict [(''n'', JDict [(''y'', JStr ''2'')]), (''m'', JStr ''0'')])] ''a''
           = Some (JDict b')"
    and each: "\<And>sub_key. map_of b' sub_key =
        (case map_of [(''n'', JDict [(''y'', JStr ''2'')])] sub_key of
           Some sub_value \<Rightarrow> Some sub_value
         | None \<Rightarrow> map_of [(''n'', JDict [(''x'', JStr ''1'')]), (''m'', JStr ''0'')] sub_key)"
    by blast
  have "map_of b' ''n'' = Some (JDict [(''y'', JStr ''2'')])"
    unfolding each[of "''n''"] by simp
  moreover have "map_of b' ''m'' = Some (JStr ''0'')"
    unfolding each[of "''m''"] by simp
  ultimately
  have res: "\<exists>b'. map_of [(''a'', JDict [(''n'', JDict [(''y'', JStr ''2'')]), (''m'', JStr ''0'')])] ''a''
              = Some (JDict b')
          \<and> map_of b' ''n'' = Some (JDict [(''y'', JStr ''2'')])
          \<and> map_of b' ''m'' = Some (JStr ''0'')"
    using at by blast
  have deep: "deep_update (JDict [(''a'', JDict [(''n'', JDict [(''x'', JStr ''1'')]), (''m'', JStr ''0'')])])
        [(''a'', JDict [(''n'', JDict [(''y'', JStr ''2'')])])]
      = Inr (JDict [(''a'', JDict [(''n'', JDict [(''x'', JStr ''1''), (''y'', JStr ''2'')]),
                                   (''m'', JStr ''0'')])])"
    by (simp add: dict_get_def dict_set_def)
  from d1 mem d2 cur upd res deep show ?thesis by (intro conjI)
qed

section \<open>The decoder's counter\<close>

text \<open>
  Every successful scan consumes input, so the depth of the recursion is bounded by the
  length of the text, and the result of \<open>json_loads\<close> is the same for every counter
  above twice that length.
\<close>

lemma scanstring_shorter: "scanstring s = Some (x, r) \<Longrightarrow> length r < length s"
  by (induction s arbitrary: x rule: scanstring.induct)
     (auto split: if_splits option.splits simp: less_Suc_eq)

lemma skip_ws_le: "length (skip_ws s) \<le> length s"
  by (simp add: skip_ws_def length_dropWhile_le)

lemma starts_with_tl: "starts_with (c # p) s \<Longrightarrow> length (tl s) < length s"
  by (cases s) (auto simp: starts_with_def)

lemma starts_with_drop:
  "starts_with p s \<Longrightarrow> p \<noteq> [] \<Longrightarrow> length (drop (length p) s) < length s"
  by (cases s; cases p) (auto simp: starts_with_def)

lemma scan_unsigned_shorter: "scan_unsigned s = Some (ds, r) \<Longrightarrow> length r < length s"
proof -
  assume a: "scan_unsigned s = Some (ds, r)"
  show ?thesis
  proof (cases "starts_with ''0'' s")
    case True
    with a starts_with_tl[OF True] show ?thesis by (simp add: scan_unsigned_def)
  next
    case False
    with a have ne: "takeWhile is_digit s \<noteq> []" and r: "r = dropWhile is_digit s"
      by (auto simp: scan_unsigned_def split: if_splits)
    have "length (takeWhile is_digit s) + length (dropWhile is_digit s) = length s"
      by (metis length_append takeWhile_dropWhile_id)
    with ne r show ?thesis by (cases "takeWhile is_digit s") auto
  qed
qed

lemma scan_int_shorter: "scan_int s = Inr (v, r) \<Longrightarrow> length r < length s"
proof -
  assume a: "scan_int s = Inr (v, r)"
  show ?thesis
  proof (cases "starts_with ''-'' s")
    case True
    with a obtain ds where "scan_unsigned (tl s) = Some (ds, r)"
      by (auto simp: scan_int_def split: option.splits if_splits)
    from scan_unsigned_shorter[OF this] starts_with_tl[OF True] show ?thesis by simp
  next
    case False
    with a obtain ds where "scan_unsigned s = Some (ds, r)"
      by (auto simp: scan_int_def split: option.splits if_splits)
    from scan_unsigned_shorter[OF this] show ?thesis .
  qed
qed

lemma scan_shorter:
  "scan_once n s = Inr (v, r) \<Longrightarrow> length r < length s"
  "scan_object n pairs s' = Inr (v', r') \<Longrightarrow> length r' < length s'"
  "scan_array n elems s'' = Inr (v'', r'') \<Longrightarrow> length r'' < length s''"
proof (induction n s and n pairs s' and n elems s'' arbitrary: v r and v' r' and v'' r''
       rule: scan_once_scan_object_scan_array.induct)
  case (1 s)
  then show ?case by simp
next
  case (2 n s)
  show ?case
  proof (cases "starts_with [CHR 0x22] s")
    case True
    with "2.prems" obtain x where "scanstring (tl s) = Some (x, r)"
      by (auto split: option.splits)
    from scanstring_shorter[OF this] starts_with_tl[OF True] show ?thesis by simp
  next
    case nq: False
    show ?thesis
    proof (cases "starts_with ''{'' s")
      case True
      show ?thesis
      proof (cases "starts_with ''}'' (skip_ws (tl s))")
        case c: True
        with nq True "2.prems" have "r = tl (skip_ws (tl s))" by (simp add: Let_def)
        with starts_with_tl[OF c] skip_ws_le[of "tl s"] starts_with_tl[OF True]
        show ?thesis by simp
      next
        case c: False
        with nq True "2.prems" have "scan_object n [] (skip_ws (tl s)) = Inr (v, r)"
          by (simp add: Let_def)
        from "2.IH"(1)[OF nq True refl c this] skip_ws_le[of "tl s"] starts_with_tl[OF True]
        show ?thesis by simp
      qed
    next
      case no: False
      show ?thesis
      proof (cases "starts_with ''['' s")
        case True
        show ?thesis
        proof (cases "starts_with '']'' (skip_ws (tl s))")
          case c: True
          with nq no True "2.prems" have "r = tl (skip_ws (tl s))" by (simp add: Let_def)
          with starts_with_tl[OF c] skip_ws_le[of "tl s"] starts_with_tl[OF True]
          show ?thesis by simp
        next
          case c: False
          with nq no True "2.prems" have "scan_array n [] (skip_ws (tl s)) = Inr (v, r)"
            by (simp add: Let_def)
          from "2.IH"(2)[OF nq no True refl c this] skip_ws_le[of "tl s"] starts_with_tl[OF True]
          show ?thesis by simp
        qed
      next
        case na: False
        from nq no na "2.prems"
        consider "starts_with ''null'' s" "r = drop 4 s"
          | "starts_with ''true'' s" "r = drop 4 s"
          | "starts_with ''false'' s" "r = drop 5 s"
          | "scan_int s = Inr (v, r)"
          by (auto split: if_splits)
        then show ?thesis
        proof cases
          case 1
          with starts_with_drop[OF 1(1)] show ?thesis by simp
        next
          case 2
          with starts_with_drop[OF 2(1)] show ?thesis by simp
        next
          case 3
          with starts_with_drop[OF 3(1)] show ?thesis by simp
        next
          case 4
          then show ?thesis by (rule scan_int_shorter)
        qed
      qed
    qed
  qed
next
  case (3 pairs s)
  then show ?case by simp
next
  case (4 n pairs s)
  from "4.prems" have q: "starts_with [CHR 0x22] s" by (auto split: if_splits)
  with "4.prems" obtain key r1 where k: "scanstring (tl s) = Some (key, r1)"
    by (auto split: option.splits)
  from q k "4.prems" have c: "starts_with '':'' (skip_ws r1)"
    by (auto simp: Let_def split: if_splits)
  from q k c "4.prems" obtain x r3 where
    val: "scan_once n (skip_ws (tl (skip_ws r1))) = Inr (x, r3)"
    by (auto simp: Let_def split: sum.splits)
  have l1: "length r1 < length s"
    using scanstring_shorter[OF k] starts_with_tl[OF q] by simp
  have l3: "length r3 < length r1"
    using "4.IH"(1)[OF q k refl refl c val]
      skip_ws_le[of "tl (skip_ws r1)"] starts_with_tl[OF c] skip_ws_le[of r1] by simp
  show ?case
  proof (cases "starts_with ''}'' (skip_ws r3)")
    case True
    with q k c val "4.prems" have "r' = tl (skip_ws r3)" by (simp add: Let_def)
    with starts_with_tl[OF True] skip_ws_le[of r3] l1 l3 show ?thesis by simp
  next
    case False
    with q k c val "4.prems" have m: "starts_with '','' (skip_ws r3)"
      and rest: "scan_object n (dict_set pairs key x) (skip_ws (tl (skip_ws r3))) = Inr (v', r')"
      by (auto simp: Let_def split: if_splits)
    from "4.IH"(2)[OF q k refl refl c val refl refl refl False m rest]
      skip_ws_le[of "tl (skip_ws r3)"] starts_with_tl[OF m] skip_ws_le[of r3] l1 l3
    show ?thesis by simp
  qed
next
  case (5 elems s)
  then show ?case by simp
next
  case (6 n elems s)
  from "6.prems" obtain x r1 where val: "scan_once n s = Inr (x, r1)"
    by (auto split: sum.splits)
  have l1: "length r1 < length s" using "6.IH"(1)[OF val] .
  show ?case
  proof (cases "starts_with '']'' (skip_ws r1)")
    case True
    with val "6.prems" have "r'' = tl (skip_ws r1)" by (simp add: Let_def)
    with starts_with_tl[OF True] skip_ws_le[of r1] l1 show ?thesis by simp
  next
    case False
    with val "6.prems" have m: "starts_with '','' (skip_ws r1)"
      and rest: "scan_array n (elems @ [x]) (skip_ws (tl (skip_ws r1))) = Inr (v'', r'')"
      by (auto simp: Let_def split: if_splits)
    from "6.IH"(2)[OF val refl refl False m rest]
      skip_ws_le[of "tl (skip_ws r1)"] starts_with_tl[OF m] skip_ws_le[of r1] l1
    show ?thesis by simp
  qed
qed

lemma scan_fuel:
  "2 * length s < n \<Longrightarrow> 2 * length s < m \<Longrightarrow> scan_once n s = scan_once m s"
  "2 * length s' < n \<Longrightarrow> 2 * length s' < m \<Longrightarrow> scan_object n pairs s' = scan_object m pairs s'"
  "2 * length s'' + 1 < n \<Longrightarrow> 2 * length s'' + 1 < m \<Longrightarrow>
   scan_array n elems s'' = scan_array m elems s''"
proof (induction n s and n pairs s' and n elems s'' arbitrary: m and m and m
       rule: scan_once_scan_object_scan_array.induct)
  case (1 s)
  then show ?case by simp
next
  case (2 n s)
  from "2.prems" obtain m' where m: "m = Suc m'" by (cases m) auto
  have obj: "scan_object n [] (skip_ws (tl s)) = scan_object m' [] (skip_ws (tl s))"
    if nq: "\<not> starts_with [CHR 0x22] s" and o: "starts_with ''{'' s"
      and c: "\<not> starts_with ''}'' (skip_ws (tl s))"
  proof -
    have "length (skip_ws (tl s)) < length s"
      using skip_ws_le[of "tl s"] starts_with_tl[OF o] by simp
    with "2.prems" m have "2 * length (skip_ws (tl s)) < n" "2 * length (skip_ws (tl s)) < m'"
      by simp_all
    then show ?thesis using "2.IH"(1)[OF nq o refl c] by blast
  qed
  have arr: "scan_array n [] (skip_ws (tl s)) = scan_array m' [] (skip_ws (tl s))"
    if nq: "\<not> starts_with [CHR 0x22] s" and no: "\<not> starts_with ''{'' s"
      and a: "starts_with ''['' s" and c: "\<not> starts_with '']'' (skip_ws (tl s))"
  proof -
    have "length (skip_ws (tl s)) < length s"
      using skip_ws_le[of "tl s"] starts_with_tl[OF a] by simp
    with "2.prems" m have "2 * length (skip_ws (tl s)) + 1 < n" "2 * length (skip_ws (tl s)) + 1 < m'"
      by simp_all
    then show ?thesis using "2.IH"(2)[OF nq no a refl c] by blast
  qed
  show ?case unfolding m by (simp add: Let_def obj arr)
next
  case (3 pairs s)
  then show ?case by simp
next
  case (4 n pairs s)
  from "4.prems" obtain m' where m: "m = Suc m'" by (cases m) auto
  show ?case
  proof (cases "starts_with [CHR 0x22] s")
    case False
    then show ?thesis unfolding m by simp
  next
    case q: True
    show ?thesis
    proof (cases "scanstring (tl s)")
      case None
      with q show ?thesis unfolding m by simp
    next
      case (Some kr)
      obtain key r1 where kr: "kr = (key, r1)" by (cases kr)
      note k = Some[unfolded kr]
      have l1: "length r1 < length s"
        using scanstring_shorter[OF k] starts_with_tl[OF q] by simp
      show ?thesis
      proof (cases "starts_with '':'' (skip_ws r1)")
        case False
        with q k show ?thesis unfolding m by (simp add: Let_def)
      next
        case c: True
        let ?X = "skip_ws (tl (skip_ws r1))"
        have lX: "length ?X < length r1"
          using skip_ws_le[of "tl (skip_ws r1)"] starts_with_tl[OF c] skip_ws_le[of r1] by simp
        with l1 "4.prems" m have "2 * length ?X < n" "2 * length ?X < m'" by simp_all
        then have once: "scan_once n ?X = scan_once m' ?X"
          using "4.IH"(1)[OF q k refl refl c] by blast
        show ?thesis
        proof (cases "scan_once n ?X")
          case (Inl e)
          with once have "scan_once m' ?X = Inl e" by simp
          with Inl q k c show ?thesis unfolding m by (simp add: Let_def)
        next
          case (Inr xr)
          obtain x r3 where xr: "xr = (x, r3)" by (cases xr)
          note val = Inr[unfolded xr]
          have l3: "length r3 < length ?X" using scan_shorter(1)[OF val] .
          have rest: "scan_object n (dict_set pairs key x) (skip_ws (tl (skip_ws r3)))
                    = scan_object m' (dict_set pairs key x) (skip_ws (tl (skip_ws r3)))"
            if e: "\<not> starts_with ''}'' (skip_ws r3)" and cm: "starts_with '','' (skip_ws r3)"
          proof -
            let ?Y = "skip_ws (tl (skip_ws r3))"
            have "length ?Y < length r3"
              using skip_ws_le[of "tl (skip_ws r3)"] starts_with_tl[OF cm] skip_ws_le[of r3] by simp
            with l3 lX l1 "4.prems" m have "2 * length ?Y < n" "2 * length ?Y < m'" by simp_all
            then show ?thesis
              using "4.IH"(2)[OF q k refl refl c val refl refl refl e cm] by blast
          qed
          from val once have val': "scan_once m' ?X = Inr (x, r3)" by simp
          show ?thesis unfolding m using q k c val val' rest by (simp add: Let_def)
        qed
      qed
    qed
  qed
next
  case (5 elems s)
  then show ?case by simp
next
  case (6 n elems s)
  from "6.prems" obtain m' where m: "m = Suc m'" by (cases m) auto
  from "6.prems" m have "2 * length s < n" "2 * length s < m'" by simp_all
  then have once: "scan_once n s = scan_once m' s" using "6.IH"(1) by blast
  show ?case
  proof (cases "scan_once n s")
    case (Inl e)
    with once have "scan_once m' s = Inl e" by simp
    with Inl show ?thesis unfolding m by simp
  next
    case (Inr xr)
    obtain x r1 where xr: "xr = (x, r1)" by (cases xr)
    note val = Inr[unfolded xr]
    have l1: "length r1 < length s" using scan_shorter(1)[OF val] .
    have rest: "scan_array n (elems @ [x]) (skip_ws (tl (skip_ws r1)))
              = scan_array m' (elems @ [x]) (skip_ws (tl (skip_ws r1)))"
      if e: "\<not> starts_with '']'' (skip_ws r1)" and cm: "starts_with '','' (skip_ws r1)"
    proof -
      let ?Y = "skip_ws (tl (skip_ws r1))"
      have "length ?Y < length r1"
        using skip_ws_le[of "tl (skip_ws r1)"] starts_with_tl[OF cm] skip_ws_le[of r1] by simp
      with l1 "6.prems" m have "2 * length ?Y + 1 < n" "2 * length ?Y + 1 < m'" by simp_all
      then show ?thesis using "6.IH"(2)[OF val refl refl e cm] by blast
    qed
    from val once have val': "scan_once m' s = Inr (x, r1)" by simp
    show ?thesis unfolding m using val val' rest by (simp add: Let_def)
  qed
qed

lemma json_loads_fuel:
  "2 * length s < n \<Longrightarrow>
   json_loads s =
     (case scan_once n (skip_ws s) of
        Inl e \<Rightarrow> Inl e
      | Inr (v, r) \<Rightarrow> if skip_ws r = [] then Inr v else Inl JSONDecodeError)"
proof -
  assume n: "2 * length s < n"
  have "scan_once (Suc (2 * length s)) (skip_ws s) = scan_once n (skip_ws s)"
    using skip_ws_le[of s] n by (intro scan_fuel(1)) simp_all
  then show ?thesis by (simp add: json_loads_def)
qed

section \<open>The claims about the lenient loader\<close>

text \<open>The loader on a missing brace, a trailing comma, both repairs, and a surplus brace.\<close>

lemma load_lenient_examples:
  \<open>load_lenient json_loads ''{"a": "b"'' (JNull) = Inr (JDict [(''a'', JStr ''b'')])\<close>
  \<open>load_lenient json_loads ''{"a": "b",}'' (JNull) = Inr (JDict [(''a'', JStr ''b'')])\<close>
  \<open>load_lenient json_loads ''{"a": ["b", "c", ], "d": {"e": -5, "a": null } }'' (JNull)
     = Inr (JDict [(''a'', JList [JStr ''b'', JStr ''c'']),
                   (''d'', JDict [(''e'', JInt (- 5)), (''a'', JNull)])])\<close>
  \<open>load_lenient json_loads ''{"a": "b"}}'' (JNull) = Inr (JDict [(''a'', JStr ''b'')])\<close>
  by code_simp+

lemma fix_braces_balanced:
  "count_list s (CHR ''{'') = count_list s (CHR ''}'') \<Longrightarrow> fix_braces s = s"
  by (simp add: fix_braces_def)






text \<open>
  C1, as stated, fails: the loader does not parse the text as it is first. It counts the
  braces of the whole text, those inside strings too, and repairs the count before the
  first \<^verbatim>\<open>json.loads\<close>. The well-formed text \<^verbatim>\<open>{"a": "{"}\<close> has two opening braces and one
  closing brace; the loader appends a brace, both parses fail, and the fallback is
  returned.
\<close>

theorem load_lenient_brace_inside_string:
  \<open>json_loads ''{"a": "{"}'' = Inr (JDict [(''a'', JStr ''{'')])
   \<and> load_lenient json_loads ''{"a": "{"}'' (JDict []) = Inr (JDict [])
   \<and> load_lenient json_loads ''{"a": "{"}'' (JDict []) \<noteq> Inr (JDict [(''a'', JStr ''{'')])\<close>
  by code_simp

text \<open>
  C1 (amended). For every well-formed text \<open>S\<close> in which \<^verbatim>\<open>{\<close> and \<^verbatim>\<open>}\<close> occur equally
  often, and for every fallback, the loader returns the strict parse of \<open>S\<close>: the text
  reaches the first \<^verbatim>\<open>json.loads\<close> unchanged, and the result does not depend on the
  fallback.
\<close>

theorem load_lenient_balanced_roundtrip:
  "count_list S (CHR ''{'') = count_list S (CHR ''}'') \<Longrightarrow> loads S = Inr t \<Longrightarrow>
   load_lenient loads S fallback = Inr t"
  by (simp add: load_lenient_def fix_braces_balanced)

theorem load_lenient_balanced_roundtrip_witness:
  \<open>count_list ''{"a": {"b": "c"}}'' (CHR ''{'') = count_list ''{"a": {"b": "c"}}'' (CHR ''}'')
   \<and> json_loads ''{"a": {"b": "c"}}'' = Inr (JDict [(''a'', JDict [(''b'', JStr ''c'')])])
   \<and> load_lenient json_loads ''{"a": {"b": "c"}}'' (JStr ''fallback'')
       = Inr (JDict [(''a'', JDict [(''b'', JStr ''c'')])])\<close>
proof -
  have c: \<open>count_list ''{"a": {"b": "c"}}'' (CHR ''{'') = count_list ''{"a": {"b": "c"}}'' (CHR ''}'')\<close>
    by simp
  have p: \<open>json_loads ''{"a": {"b": "c"}}'' = Inr (JDict [(''a'', JDict [(''b'', JStr ''c'')])])\<close>
    by code_simp
  have r: \<open>load_lenient json_loads ''{"a": {"b": "c"}}'' (JStr ''fallback'')
       = Inr (JDict [(''a'', JDict [(''b'', JStr ''c'')])])\<close>
    using c p by (rule load_lenient_balanced_roundtrip[where loads = json_loads])
  show ?thesis
    by (intro conjI c p r)
qed




end
